theory Spec2Isabelle
  imports Main
begin

section \<open>Go strings and the library calls of \<open>mmc_importer.go\<close>\<close>

text \<open>
  A Go string is a sequence of bytes, and \<open>len\<close> counts bytes: it is a \<open>string\<close>
  here (a list of 8-bit \<open>char\<close>s). A rune is a Unicode code point, a natural number.
  The library functions the source calls (\<open>strings.Split\<close>, \<open>strings.Join\<close>,
  \<open>strings.HasSuffix\<close>, \<open>fmt.Fscanf\<close> on a \<open>strings.Reader\<close>) are modelled
  after the Go standard library, as far as the calls of the source reach them.
\<close>

type_synonym rune = nat

definition byte :: "char \<Rightarrow> nat" where
  "byte c = of_char c"

subsection \<open>\<open>strings.Split(s, "/")\<close>, \<open>strings.Join(elems, "/")\<close>, \<open>strings.HasSuffix(s, `"`)\<close>\<close>

text \<open>
  \<open>strings.Split\<close> with a one-byte separator cuts at every occurrence of it and
  returns the pieces between, so the empty string gives one empty piece and \<open>n\<close>
  separators give \<open>n + 1\<close> pieces.
\<close>

fun strings_Split :: "string \<Rightarrow> char \<Rightarrow> string list" where
  "strings_Split [] sep = [[]]"
| "strings_Split (c # cs) sep =
     (if c = sep then [] # strings_Split cs sep
      else (case strings_Split cs sep of
              [] \<Rightarrow> [[c]]
            | p # ps \<Rightarrow> (c # p) # ps))"

fun strings_Join :: "string list \<Rightarrow> string \<Rightarrow> string" where
  "strings_Join [] sep = []"
| "strings_Join [p] sep = p"
| "strings_Join (p # q # ps) sep = p @ sep @ strings_Join (q # ps) sep"

definition strings_HasSuffix :: "string \<Rightarrow> string \<Rightarrow> bool" where
  "strings_HasSuffix s suffix =
     (length s \<ge> length suffix \<and> drop (length s - length suffix) s = suffix)"

subsection \<open>\<open>utf8.DecodeRuneInString\<close> and \<open>strings.Reader.ReadRune\<close>\<close>

definition RuneError :: rune where
  "RuneError = 65533"

definition RuneSelf :: nat where
  "RuneSelf = 128"

text \<open>
  The table \<open>first\<close> of package \<open>utf8\<close>: what the first byte of a sequence says.
  \<open>AS\<close> is an ASCII byte, \<open>XX\<close> an invalid first byte, \<open>SZ n lo hi\<close> the first
  byte of a sequence of \<open>n\<close> bytes whose second byte must lie in \<open>lo .. hi\<close>.
\<close>

datatype first_info = AS | XX | SZ nat nat nat

definition first :: "nat \<Rightarrow> first_info" where
  "first b =
     (if b < 128 then AS
      else if b < 194 then XX
      else if b < 224 then SZ 2 128 191
      else if b = 224 then SZ 3 160 191
      else if b < 237 then SZ 3 128 191
      else if b = 237 then SZ 3 128 159
      else if b < 240 then SZ 3 128 191
      else if b = 240 then SZ 4 144 191
      else if b < 244 then SZ 4 128 191
      else if b = 244 then SZ 4 128 143
      else XX)"

definition locb :: nat where "locb = 128"
definition hicb :: nat where "hicb = 191"

text \<open>
  \<open>DecodeRuneInString\<close> returns the rune and its width in bytes; an invalid or
  truncated sequence is \<open>(RuneError, 1)\<close>. The masks \<open>mask2\<close>, \<open>mask3\<close>,
  \<open>mask4\<close> and \<open>maskx\<close> keep the low 5, 4, 3 and 6 bits, and the shifted parts
  do not overlap, so each \<open>\<bar>\<close> of the source is a sum.
\<close>

definition DecodeRuneInString :: "string \<Rightarrow> rune \<times> nat" where
  "DecodeRuneInString s =
     (case s of
        [] \<Rightarrow> (RuneError, 0)
      | c0 # _ \<Rightarrow>
          (case first (byte c0) of
             AS \<Rightarrow> (byte c0, 1)
           | XX \<Rightarrow> (RuneError, 1)
           | SZ sz lo hi \<Rightarrow>
               if length s < sz then (RuneError, 1)
               else let s0 = byte c0; s1 = byte (s ! 1) in
                 if s1 < lo \<or> hi < s1 then (RuneError, 1)
                 else if sz \<le> 2 then ((s0 mod 32) * 64 + s1 mod 64, 2)
                 else let s2 = byte (s ! 2) in
                   if s2 < locb \<or> hicb < s2 then (RuneError, 1)
                   else if sz \<le> 3
                     then ((s0 mod 16) * 4096 + (s1 mod 64) * 64 + s2 mod 64, 3)
                   else let s3 = byte (s ! 3) in
                     if s3 < locb \<or> hicb < s3 then (RuneError, 1)
                     else ((s0 mod 8) * 262144 + (s1 mod 64) * 4096
                             + (s2 mod 64) * 64 + s3 mod 64, 4)))"

text \<open>
  \<open>strings.Reader.ReadRune\<close>: \<open>None\<close> is \<open>io.EOF\<close>; otherwise the rune read and
  the input left after it.
\<close>

definition ReadRune :: "string \<Rightarrow> (rune \<times> string) option" where
  "ReadRune s =
     (case s of
        [] \<Rightarrow> None
      | c # rest \<Rightarrow>
          if byte c < RuneSelf then Some (byte c, rest)
          else let (ch, size) = DecodeRuneInString s in Some (ch, drop size s))"

lemma DecodeRuneInString_size:
  "s \<noteq> [] \<Longrightarrow> 1 \<le> snd (DecodeRuneInString s) \<and> snd (DecodeRuneInString s) \<le> 4"
  by (cases s) (simp_all add: DecodeRuneInString_def Let_def split: first_info.splits)

lemma ReadRune_shorter: "ReadRune s = Some (r, rest) \<Longrightarrow> length rest < length s"
proof (cases s)
  case Nil
  assume "ReadRune s = Some (r, rest)"
  with Nil show ?thesis by (simp add: ReadRune_def)
next
  case (Cons c cs)
  assume rd: "ReadRune s = Some (r, rest)"
  have "1 \<le> snd (DecodeRuneInString s)"
    using DecodeRuneInString_size [of s] Cons by simp
  with rd Cons show ?thesis
    by (auto simp: ReadRune_def split: if_splits prod.splits)
qed

subsection \<open>The scanner of package \<open>fmt\<close>, as \<open>Fscanf(r, "v%d", &v)\<close> runs it\<close>

text \<open>
  \<open>ss.ReadRune\<close> answers \<open>io.EOF\<close> once \<open>s.count\<close> has reached \<open>s.argLimit\<close>,
  which stays \<open>hugeWid = 1 << 30\<close> for a verb without a width, and
  \<open>ss.UnreadRune\<close> gives the count back. So the scanner sees the bytes of the
  first \<open>hugeWid\<close> runes of its input and the end of input after them.
\<close>

definition hugeWid :: nat where
  "hugeWid = 1073741824"

function limitRunes :: "nat \<Rightarrow> string \<Rightarrow> string" where
  "limitRunes n s =
     (if n = 0 then []
      else (case ReadRune s of
              None \<Rightarrow> []
            | Some (r, rest) \<Rightarrow> take (length s - length rest) s @ limitRunes (n - 1) rest))"
  by pat_completeness auto
termination
  by (relation "measure (\<lambda>(n, s). n)") auto

declare limitRunes.simps [simp del]

text \<open>The table \<open>space\<close> of \<open>fmt/scan.go\<close> and \<open>isSpace\<close>, which walks it.\<close>

definition space :: "(nat \<times> nat) list" where
  "space = [(9, 13), (32, 32), (133, 133), (160, 160), (5760, 5760), (8192, 8202),
            (8232, 8233), (8239, 8239), (8287, 8287), (12288, 12288)]"

fun isSpace_ranges :: "nat \<Rightarrow> (nat \<times> nat) list \<Rightarrow> bool" where
  "isSpace_ranges rx [] = False"
| "isSpace_ranges rx ((lo, hi) # rngs) =
     (if rx < lo then False else if rx \<le> hi then True else isSpace_ranges rx rngs)"

definition isSpace :: "rune \<Rightarrow> bool" where
  "isSpace r = (if r \<ge> 65536 then False else isSpace_ranges r space)"

text \<open>
  Every \<open>panic\<close> of the scanner that \<open>errorHandler\<close> turns into the error of
  \<open>Fscanf\<close>, and the errors of \<open>strconv\<close>.
\<close>

datatype scan_error =
    ErrUnexpectedEOF
  | ErrEOF
  | ErrInputDoesNotMatchFormat
  | ErrUnexpectedNewline
  | ErrExpectedInteger
  | ErrSyntax
  | ErrRange
  | ErrIntegerOverflow

text \<open>\<open>indexRune(ok, r) >= 0\<close> for an ASCII string \<open>ok\<close>.\<close>

definition indexRune :: "string \<Rightarrow> rune \<Rightarrow> bool" where
  "indexRune ok r = (r \<in> set (map byte ok))"

definition peek :: "string \<Rightarrow> string \<Rightarrow> bool" where
  "peek ok inp = (case ReadRune inp of None \<Rightarrow> False | Some (r, rest) \<Rightarrow> indexRune ok r)"

text \<open>
  \<open>ss.SkipSpace\<close> with \<open>nlIsSpace = false\<close>, as \<open>Fscanf\<close> sets it: spaces are
  skipped, a newline is an error, and the first other rune is unread.
\<close>

function SkipSpace :: "string \<Rightarrow> scan_error + string" where
  "SkipSpace inp =
     (case ReadRune inp of
        None \<Rightarrow> Inr inp
      | Some (r, rest) \<Rightarrow>
          if r = 13 \<and> peek [CHR 0x0A] rest then SkipSpace rest
          else if r = 10 then Inl ErrUnexpectedNewline
          else if \<not> isSpace r then Inr inp
          else SkipSpace rest)"
  by pat_completeness auto
termination
  by (relation "measure length") (auto dest: ReadRune_shorter)

declare SkipSpace.simps [simp del]

text \<open>
  \<open>ss.accept(ok)\<close>, that is \<open>consume(ok, true)\<close>: a rune of \<open>ok\<close> is read and
  written to the token buffer, any other rune is unread. The state is the buffer and the
  input left. The strings \<open>ok\<close> of the source are ASCII, and an ASCII rune is read
  from one byte, so \<open>writeRune\<close> writes the byte that was read.
\<close>

definition accept :: "string \<Rightarrow> string \<times> string \<Rightarrow> bool \<times> string \<times> string" where
  "accept ok st =
     (case ReadRune (snd st) of
        None \<Rightarrow> (False, st)
      | Some (r, rest) \<Rightarrow>
          if indexRune ok r then (True, fst st @ [hd (snd st)], rest) else (False, st))"

lemma accept_shorter: "accept ok st = (True, st') \<Longrightarrow> length (snd st') < length (snd st)"
  using ReadRune_shorter [of "snd st"]
  by (auto simp: accept_def split: option.splits if_splits)

text \<open>The loop \<open>for s.accept(digits) {}\<close> of \<open>scanNumber\<close>.\<close>

function accept_all :: "string \<Rightarrow> string \<times> string \<Rightarrow> string \<times> string" where
  "accept_all ok st =
     (if fst (accept ok st) then accept_all ok (snd (accept ok st)) else snd (accept ok st))"
  by pat_completeness auto
termination
proof (relation "measure (\<lambda>(ok, st). length (snd st))")
  show "wf (measure (\<lambda>(ok, st). length (snd st)))" by simp
next
  fix ok :: string and st :: "string \<times> string"
  assume "fst (accept ok st)"
  then have "accept ok st = (True, snd (accept ok st))"
    by (cases "accept ok st") simp
  then show "((ok, snd (accept ok st)), (ok, st)) \<in> measure (\<lambda>(ok, st). length (snd st))"
    using accept_shorter by simp
qed

declare accept_all.simps [simp del]

definition sign :: string where "sign = ''+-''"
definition decimalDigits :: string where "decimalDigits = ''0123456789''"

text \<open>
  \<open>ss.scanNumber(digits, false)\<close>: the input must not be at its end, one digit must be
  there, and the digits that follow are taken. It returns the token and the input left.
\<close>

definition scanNumber :: "string \<Rightarrow> string \<times> string \<Rightarrow> scan_error + string \<times> string" where
  "scanNumber digits st =
     (if ReadRune (snd st) = None then Inl ErrEOF
      else if \<not> fst (accept digits st) then Inl ErrExpectedInteger
      else Inr (accept_all digits (snd (accept digits st))))"

subsection \<open>\<open>strconv.ParseInt(tok, 10, 64)\<close>\<close>

definition maxUint64 :: nat where
  "maxUint64 = 18446744073709551615"

text \<open>
  The digit loop of \<open>strconv.ParseUint\<close> for base 10 and 64 bits: a byte that is not a
  decimal digit is a syntax error, and a value beyond \<open>maxUint64\<close> a range error, found
  as the source finds it (before and after the new digit is added).
\<close>

fun ParseUint_digits :: "nat \<Rightarrow> string \<Rightarrow> scan_error + nat" where
  "ParseUint_digits n [] = Inr n"
| "ParseUint_digits n (c # cs) =
     (if \<not> (48 \<le> byte c \<and> byte c \<le> 57) then Inl ErrSyntax
      else if n \<ge> maxUint64 div 10 + 1 then Inl ErrRange
      else let n1 = n * 10 + (byte c - 48) in
        if n1 > maxUint64 then Inl ErrRange else ParseUint_digits n1 cs)"

definition ParseUint :: "string \<Rightarrow> scan_error + nat" where
  "ParseUint s = (if s = [] then Inl ErrSyntax else ParseUint_digits 0 s)"

text \<open>
  \<open>strconv.ParseInt\<close>: one leading sign is taken off, the rest is read by
  \<open>ParseUint\<close>, and the value must fit \<open>int64\<close> (\<open>cutoff = 1 << 63\<close>). After a range
  error of \<open>ParseUint\<close> the source goes on with \<open>maxUint64\<close> and ends in its own
  range error.
\<close>

definition ParseInt :: "string \<Rightarrow> scan_error + int" where
  "ParseInt s =
     (if s = [] then Inl ErrSyntax
      else let neg = (hd s = CHR ''-'');
               s1 = (if hd s = CHR ''+'' \<or> hd s = CHR ''-'' then tl s else s)
        in (case ParseUint s1 of
              Inl e \<Rightarrow> Inl e
            | Inr un \<Rightarrow>
                if \<not> neg \<and> un \<ge> 9223372036854775808 then Inl ErrRange
                else if neg \<and> un > 9223372036854775808 then Inl ErrRange
                else Inr (if neg then - int un else int un)))"

subsection \<open>\<open>scanInt\<close> and \<open>Fscanf\<close> for the format \<open>"v%d"\<close>\<close>

text \<open>The size of Go's \<open>int\<close> on the 64-bit platforms the tool is built for.\<close>

definition intBits :: nat where
  "intBits = 64"

text \<open>
  \<open>ss.scanInt('d', intBits)\<close>: spaces are skipped, the input must not be at its end,
  one sign is accepted, \<open>scanNumber\<close> reads the digits, \<open>ParseInt\<close> the token, and the
  value must fit \<open>intBits\<close> bits.
\<close>

definition scanInt :: "string \<Rightarrow> scan_error + int" where
  "scanInt inp =
     (case SkipSpace inp of
        Inl e \<Rightarrow> Inl e
      | Inr s1 \<Rightarrow>
          if ReadRune s1 = None then Inl ErrEOF
          else (case scanNumber decimalDigits (snd (accept sign ([], s1))) of
                  Inl e \<Rightarrow> Inl e
                | Inr (tok, s2) \<Rightarrow>
                    (case ParseInt tok of
                       Inl e \<Rightarrow> Inl e
                     | Inr i \<Rightarrow>
                         if - (2 ^ (intBits - 1)) \<le> i \<and> i < 2 ^ (intBits - 1) then Inr i
                         else Inl ErrIntegerOverflow)))"

text \<open>
  \<open>fmt.Fscanf(strings.NewReader(s), "v%d", &v)\<close> runs \<open>doScanf\<close> on a new scanner
  over the reader. \<open>doScanf\<close> first advances over the literal \<open>v\<close> of the format:
  \<open>mustReadRune\<close> fails at the end of input, and another rune does not match the
  format. Then the verb \<open>%d\<close>: \<open>doScanf\<close> skips spaces and \<open>scanOne\<close> stores the
  result of \<open>scanInt\<close>. The format ends there and \<open>doScanf\<close> returns: what is left of
  the input is not looked at. The result is the value stored in \<open>v\<close>, or the error.
\<close>

definition doScanf_v_d :: "string \<Rightarrow> scan_error + int" where
  "doScanf_v_d inp =
     (case ReadRune inp of
        None \<Rightarrow> Inl ErrUnexpectedEOF
      | Some (inputc, rest) \<Rightarrow>
          if inputc \<noteq> byte CHR ''v'' then Inl ErrInputDoesNotMatchFormat
          else (case SkipSpace rest of
                  Inl e \<Rightarrow> Inl e
                | Inr s1 \<Rightarrow> scanInt s1))"

definition Fscanf_v_d :: "string \<Rightarrow> scan_error + int" where
  "Fscanf_v_d s = doScanf_v_d (limitRunes hugeWid s)"

section \<open>The path functions of \<open>mmc_importer.go\<close>\<close>

text \<open>\<open>isVNPart\<close> returns \<open>err == nil\<close> for the error of \<open>Fscanf\<close>.\<close>

definition isVNPart :: "string \<Rightarrow> bool" where
  "isVNPart s = (case Fscanf_v_d s of Inl err \<Rightarrow> False | Inr v \<Rightarrow> True)"

definition quote :: string where
  "quote = [CHR 0x22]"

text \<open>
  The loop of \<open>removeMajorVersionFromPath\<close> over \<open>parts\<close>, at index \<open>i\<close>, with
  \<open>n = len(parts)\<close>; its state is \<open>nonVN\<close> and \<open>endQuote\<close>.
\<close>

fun removeMajorVersionFromPath_loop ::
  "nat \<Rightarrow> nat \<Rightarrow> string list \<Rightarrow> string list \<times> bool \<Rightarrow> string list \<times> bool" where
  "removeMajorVersionFromPath_loop n i [] st = st"
| "removeMajorVersionFromPath_loop n i (p # ps) st =
     (if isVNPart p
      then removeMajorVersionFromPath_loop n (Suc i) ps
             (fst st, int i = int n - 1 \<and> strings_HasSuffix p quote)
      else removeMajorVersionFromPath_loop n (Suc i) ps (fst st @ [p], snd st))"

text \<open>
  \<open>removeMajorVersionFromPath\<close> returns the rewritten path and
  \<open>len(pkgPath) - len(r)\<close>, a Go \<open>int\<close> (both lengths are far below its range).
\<close>

definition removeMajorVersionFromPath :: "string \<Rightarrow> string \<times> int" where
  "removeMajorVersionFromPath pkgPath =
     (let parts = strings_Split pkgPath (CHR ''/'');
          st = removeMajorVersionFromPath_loop (length parts) 0 parts ([], False);
          r = strings_Join (fst st) ''/'';
          r = (if snd st then r @ quote else r)
      in (r, int (length pkgPath) - int (length r)))"

section \<open>The importer\<close>

text \<open>
  A non-nil \<open>error\<close> and a \<open>*types.Package\<close> (its path and whether it is complete).
  A Go result pair \<open>(*types.Package, error)\<close> is a pair of options, \<open>None\<close> for
  \<open>nil\<close>: both, one or none of the two can be \<open>nil\<close>.
\<close>

datatype gerror = GoError string

datatype package = Package string bool

type_synonym import_result = "package option \<times> gerror option"

text \<open>
  \<open>types.Config.Check\<close> is given the importer and calls its \<open>Import\<close> for the
  imports it meets. A run of the checker is a tree: it is done with a result pair, or it
  asks for the import of a path and goes on with what it is answered.
\<close>

datatype checker = Done import_result | ImportCall string "import_result \<Rightarrow> checker"

text \<open>
  An \<open>*ast.File\<close>: the \<open>Path.Value\<close> of each of its \<open>Imports\<close>, and the rest.
\<close>

record ast_File =
  Imports :: "string list"
  Decls :: string

text \<open>
  The calls of the collaborators, recorded in the order they are made.
\<close>

datatype event =
    NewStdImporter nat
  | StdImport nat string
  | ContextImport string string
  | ReadFile string
  | ParseFile string
  | Check string "ast_File list"

text \<open>
  What the importer calls and does not define: \<open>imp.Ctx\<close> (its \<open>GOPATH\<close> and its
  \<open>Import\<close>, of which the source reads the \<open>GoFiles\<close>), \<open>filepath.Join\<close>, the
  \<open>Import\<close> of the importer \<open>importer.ForCompiler\<close> returns (by its handle),
  \<open>ioutil.ReadFile\<close>, \<open>parser.ParseFile\<close>, \<open>types.Config.Check\<close>, and the
  order in which \<open>range\<close> walks a map, which Go leaves open.
\<close>

record collaborators =
  GOPATH :: string
  filepath_Join :: "string list \<Rightarrow> string"
  importer_Import :: "nat \<Rightarrow> string \<Rightarrow> import_result"
  build_Import :: "string \<Rightarrow> string \<Rightarrow> gerror + string list"
  ioutil_ReadFile :: "string \<Rightarrow> gerror + string"
  parser_ParseFile :: "string \<Rightarrow> string \<Rightarrow> gerror + ast_File"
  types_Check :: "string \<Rightarrow> ast_File list \<Rightarrow> checker"
  range_order :: "(string \<times> string) list \<Rightarrow> (string \<times> string) list"

text \<open>
  The importer: its field \<open>stdImporter\<close> (\<open>None\<close> is \<open>nil\<close>, a handle is the
  number of the importer created), the number of importers created so far, and the trace
  of the calls made. \<open>Ctx\<close> is never written and is among the collaborators.
\<close>

record mmcImporter =
  stdImporter :: "nat option"
  created :: nat
  trace :: "event list"

text \<open>A call is added to the trace when it is made.\<close>

definition log :: "event \<Rightarrow> mmcImporter \<Rightarrow> mmcImporter" where
  "log e imp = imp\<lparr>trace := trace imp @ [e]\<rparr>"

text \<open>
  A \<open>map[string][]byte\<close> is an association list; \<open>fileSrcs[fp] = d\<close> replaces the
  value of a key that is there.
\<close>

fun map_put :: "string \<Rightarrow> string \<Rightarrow> (string \<times> string) list \<Rightarrow> (string \<times> string) list" where
  "map_put k v [] = [(k, v)]"
| "map_put k v ((k', v') # m) = (if k = k' then (k, v) # m else (k', v') # map_put k v m)"

text \<open>
  \<open>loadFileContents\<close> reads the files in turn into the map and stops at the first
  that cannot be read. \<open>loadPackageSources\<close> asks the build context for the package,
  joins each of its \<open>GoFiles\<close> to the source directory, and loads them.
\<close>

fun loadFileContents ::
  "collaborators \<Rightarrow> string list \<Rightarrow> (string \<times> string) list \<Rightarrow> mmcImporter
     \<Rightarrow> (gerror + (string \<times> string) list) \<times> mmcImporter" where
  "loadFileContents W [] fileSrcs imp = (Inr fileSrcs, imp)"
| "loadFileContents W (fp # fpath) fileSrcs imp =
     (case ioutil_ReadFile W fp of
        Inl err \<Rightarrow> (Inl err, log (ReadFile fp) imp)
      | Inr d \<Rightarrow> loadFileContents W fpath (map_put fp d fileSrcs) (log (ReadFile fp) imp))"

definition loadPackageSources ::
  "collaborators \<Rightarrow> string \<Rightarrow> string \<Rightarrow> mmcImporter
     \<Rightarrow> (gerror + (string \<times> string) list) \<times> mmcImporter" where
  "loadPackageSources W packagePath srcDir imp =
     (case build_Import W packagePath srcDir of
        Inl err \<Rightarrow> (Inl err, log (ContextImport packagePath srcDir) imp)
      | Inr GoFiles \<Rightarrow>
          loadFileContents W (map (\<lambda>f. filepath_Join W [srcDir, f]) GoFiles) []
            (log (ContextImport packagePath srcDir) imp))"

text \<open>
  The loop of \<open>Import\<close> over \<open>fileSrcs\<close>: each file is parsed, the first error
  ends the call, and in a parsed file the \<open>Path.Value\<close> of every import is replaced
  by what \<open>removeMajorVersionFromPath\<close> returns for it, before the file is appended
  to \<open>astFiles\<close>.
\<close>

definition rewriteImports :: "ast_File \<Rightarrow> ast_File" where
  "rewriteImports astf =
     astf\<lparr>Imports := map (\<lambda>v. fst (removeMajorVersionFromPath v)) (Imports astf)\<rparr>"

fun parseFiles ::
  "collaborators \<Rightarrow> (string \<times> string) list \<Rightarrow> ast_File list \<Rightarrow> mmcImporter
     \<Rightarrow> (gerror + ast_File list) \<times> mmcImporter" where
  "parseFiles W [] astFiles imp = (Inr astFiles, imp)"
| "parseFiles W ((fpath, src) # rest) astFiles imp =
     (case parser_ParseFile W fpath src of
        Inl err \<Rightarrow> (Inl err, log (ParseFile fpath) imp)
      | Inr astf \<Rightarrow>
          parseFiles W rest (astFiles @ [rewriteImports astf]) (log (ParseFile fpath) imp))"

text \<open>
  The checker's run with the importer it was given.
\<close>

primrec run_checker ::
  "(string \<Rightarrow> mmcImporter \<Rightarrow> (import_result \<times> mmcImporter) option) \<Rightarrow> checker
     \<Rightarrow> mmcImporter \<Rightarrow> (import_result \<times> mmcImporter) option" where
  "run_checker importer (Done r) = (\<lambda>imp. Some (r, imp))"
| "run_checker importer (ImportCall p k) =
     (\<lambda>imp. case importer p imp of
              None \<Rightarrow> None
            | Some (r, imp') \<Rightarrow> run_checker importer (k r) imp')"

text \<open>
  The first statement of \<open>Import\<close>: \<open>stdImporter\<close> is created when it is
  \<open>nil\<close>. It returns the handle that \<open>Import\<close> goes on with.
\<close>

definition initStdImporter :: "mmcImporter \<Rightarrow> nat \<times> mmcImporter" where
  "initStdImporter imp =
     (case stdImporter imp of
        None \<Rightarrow>
          (created imp,
           log (NewStdImporter (created imp))
             (imp\<lparr>stdImporter := Some (created imp), created := Suc (created imp)\<rparr>))
      | Some h \<Rightarrow> (h, imp))"

text \<open>
  \<open>mmcImporter.Import\<close>. The checker calls back into \<open>Import\<close>, and nothing bounds
  how deep (packages that import each other never end): \<open>depth\<close> is the call depth
  allowed, and \<open>None\<close> says it did not suffice.
\<close>

primrec Import ::
  "nat \<Rightarrow> collaborators \<Rightarrow> string \<Rightarrow> mmcImporter \<Rightarrow> (import_result \<times> mmcImporter) option" where
  "Import 0 W = (\<lambda>path imp. None)"
| "Import (Suc depth) W = (\<lambda>path imp.
     let (h, imp1) = initStdImporter imp;
         imp2 = log (StdImport h path) imp1
     in (case importer_Import W h path of
           (pkg, None) \<Rightarrow> Some ((pkg, None), imp2)
         | (pkg, Some e) \<Rightarrow>
             (case loadPackageSources W path (filepath_Join W [GOPATH W, ''src'', path]) imp2 of
                (Inl err, imp3) \<Rightarrow> Some ((None, Some err), imp3)
              | (Inr fileSrcs, imp3) \<Rightarrow>
                  (case parseFiles W (range_order W fileSrcs) [] imp3 of
                     (Inl err, imp4) \<Rightarrow> Some ((None, Some err), imp4)
                   | (Inr astFiles, imp4) \<Rightarrow>
                       run_checker (Import depth W) (types_Check W path astFiles)
                         (log (Check path astFiles) imp4)))))"

lemma Import_0: "Import 0 W path imp = None"
  by simp

lemma Import_Suc:
  "Import (Suc depth) W path imp =
     (let (h, imp1) = initStdImporter imp;
          imp2 = log (StdImport h path) imp1
      in (case importer_Import W h path of
            (pkg, None) \<Rightarrow> Some ((pkg, None), imp2)
          | (pkg, Some e) \<Rightarrow>
              (case loadPackageSources W path (filepath_Join W [GOPATH W, ''src'', path]) imp2 of
                 (Inl err, imp3) \<Rightarrow> Some ((None, Some err), imp3)
               | (Inr fileSrcs, imp3) \<Rightarrow>
                   (case parseFiles W (range_order W fileSrcs) [] imp3 of
                      (Inl err, imp4) \<Rightarrow> Some ((None, Some err), imp4)
                    | (Inr astFiles, imp4) \<Rightarrow>
                        run_checker (Import depth W) (types_Check W path astFiles)
                          (log (Check path astFiles) imp4)))))"
  by simp

declare Import.simps [simp del]

text \<open>
  The calls of the fallback path: loading, reading, parsing, checking.
\<close>

definition fallback_event :: "event \<Rightarrow> bool" where
  "fallback_event e =
     (case e of
        ContextImport p d \<Rightarrow> True
      | ReadFile f \<Rightarrow> True
      | ParseFile f \<Rightarrow> True
      | Check p fs \<Rightarrow> True
      | _ \<Rightarrow> False)"

text \<open>
  The result pairs a run of the checker can end with.
\<close>

primrec leaves :: "checker \<Rightarrow> import_result set" where
  "leaves (Done r) = {r}"
| "leaves (ImportCall p k) = (\<Union>r. leaves (k r))"

text \<open>
  \<open>reuses h e\<close>: the call \<open>e\<close> creates no importer and, if it is a call of the
  baseline importer, goes to the handle \<open>h\<close>. \<open>same_importer h imp imp'\<close>: from
  \<open>imp\<close> to \<open>imp'\<close> the field \<open>stdImporter\<close> stays \<open>h\<close>, no importer is
  created, and the trace grows by calls that reuse \<open>h\<close>.
\<close>

definition reuses :: "nat \<Rightarrow> event \<Rightarrow> bool" where
  "reuses h e =
     (case e of
        NewStdImporter h' \<Rightarrow> False
      | StdImport h' p \<Rightarrow> h' = h
      | _ \<Rightarrow> True)"

definition same_importer :: "nat \<Rightarrow> mmcImporter \<Rightarrow> mmcImporter \<Rightarrow> bool" where
  "same_importer h imp imp' =
     (stdImporter imp = Some h \<and> stdImporter imp' = Some h \<and> created imp' = created imp \<and>
      length (trace imp) \<le> length (trace imp') \<and>
      take (length (trace imp)) (trace imp') = trace imp \<and>
      list_all (reuses h) (drop (length (trace imp)) (trace imp')))"

subsection \<open>Two sets of collaborators to run the importer with\<close>

text \<open>
  In \<open>example_world\<close> the baseline importer finds \<open>example.com/lib\<close> only. The
  package \<open>example.com/app\<close> has one file, which imports \<open>example.com/lib/v2\<close>; the
  checker imports the first import of the first file and reports a complete package when
  that import succeeds. In \<open>failing_check_world\<close> the checker fails as
  \<open>types.Config.Check\<close> does: it returns the package it has built, incomplete, and
  the first error.
\<close>

definition unquote :: "string \<Rightarrow> string" where
  "unquote s = butlast (tl s)"

definition example_world :: collaborators where
  "example_world =
     \<lparr> GOPATH = ''/go'',
       filepath_Join = (\<lambda>elem. strings_Join elem ''/''),
       importer_Import = (\<lambda>h p. if p = ''example.com/lib''
                                then (Some (Package ''example.com/lib'' True), None)
                                else (None, Some (GoError ''cannot find package''))),
       build_Import = (\<lambda>p d. if p = ''example.com/app'' then Inr [''app.go'']
                             else Inl (GoError ''cannot find package'')),
       ioutil_ReadFile = (\<lambda>f. Inr ''package app''),
       parser_ParseFile =
         (\<lambda>f src. Inr \<lparr> Imports = [quote @ ''example.com/lib/v2'' @ quote], Decls = src \<rparr>),
       types_Check =
         (\<lambda>p fs. ImportCall (unquote (hd (Imports (hd fs))))
                    (\<lambda>r. Done (case r of
                                  (pkg, None) \<Rightarrow> (Some (Package p True), None)
                                | (pkg, Some e) \<Rightarrow> (Some (Package p False), Some e)))),
       range_order = (\<lambda>m. m) \<rparr>"

definition new_importer :: mmcImporter where
  "new_importer = \<lparr> stdImporter = None, created = 0, trace = [] \<rparr>"

definition example_trace :: "event list" where
  "example_trace =
     [NewStdImporter 0, StdImport 0 ''example.com/app'',
      ContextImport ''example.com/app'' ''/go/src/example.com/app'',
      ReadFile ''/go/src/example.com/app/app.go'',
      ParseFile ''/go/src/example.com/app/app.go'',
      Check ''example.com/app''
        [\<lparr> Imports = [quote @ ''example.com/lib'' @ quote], Decls = ''package app'' \<rparr>],
      StdImport 0 ''example.com/lib'']"

definition failing_check_world :: collaborators where
  "failing_check_world =
     example_world\<lparr> types_Check :=
       (\<lambda>p fs. Done (Some (Package p False), Some (GoError ''undeclared name''))) \<rparr>"

section \<open>The version segment as the specification words it\<close>

text \<open>
  The specification's \<open>IsVersionSegment\<close>: true iff, after optionally stripping one
  trailing quote character, the remaining text is \<open>v\<close> followed by one or more decimal
  digits and nothing else. This definition follows the specification, not the source; it
  is what \<open>isVNPart\<close> is compared with.
\<close>

definition isDigit :: "char \<Rightarrow> bool" where
  "isDigit c = (48 \<le> byte c \<and> byte c \<le> 57)"

definition spec_IsVersionSegment :: "string \<Rightarrow> bool" where
  "spec_IsVersionSegment segment =
     (let text = (if strings_HasSuffix segment quote then butlast segment else segment)
      in (case text of
            [] \<Rightarrow> False
          | c # digits \<Rightarrow> c = CHR ''v'' \<and> digits \<noteq> [] \<and> list_all isDigit digits))"

section \<open>Evaluating the scanner on a given input\<close>

lemmas scan_eval =
  isVNPart_def Fscanf_v_d_def doScanf_v_d_def limitRunes.simps SkipSpace.simps accept_all.simps
  scanInt_def scanNumber_def accept_def ReadRune_def DecodeRuneInString_def first_def
  peek_def indexRune_def isSpace_def space_def sign_def decimalDigits_def
  ParseInt_def ParseUint_def maxUint64_def intBits_def hugeWid_def byte_def RuneSelf_def
  RuneError_def locb_def hicb_def quote_def strings_HasSuffix_def

lemmas spec_eval = spec_IsVersionSegment_def isDigit_def

section \<open>\<open>strings.Split\<close> and \<open>strings.Join\<close>\<close>

lemma strings_Split_nonempty: "strings_Split s c \<noteq> []"
  by (induction s) (auto split: list.splits)

lemma strings_Join_Cons:
  "ps \<noteq> [] \<Longrightarrow> strings_Join (p # ps) sep = p @ sep @ strings_Join ps sep"
  by (cases ps) simp_all

lemma strings_Join_Split: "strings_Join (strings_Split s c) [c] = s"
proof (induction s)
  case Nil
  show ?case by simp
next
  case (Cons a s)
  obtain p ps where sp: "strings_Split s c = p # ps"
    using strings_Split_nonempty [of s c] by (cases "strings_Split s c") auto
  show ?case
  proof (cases "a = c")
    case True
    with Cons sp show ?thesis by (simp add: strings_Join_Cons)
  next
    case False
    with Cons sp show ?thesis by (cases ps) auto
  qed
qed

lemma strings_Split_no_sep: "p \<in> set (strings_Split s c) \<Longrightarrow> c \<notin> set p"
  by (induction s arbitrary: p) (auto split: if_splits list.splits)

lemma strings_Split_single: "c \<notin> set p \<Longrightarrow> strings_Split p c = [p]"
  by (induction p) auto

lemma strings_Split_append_sep:
  "c \<notin> set p \<Longrightarrow> strings_Split (p @ c # rest) c = p # strings_Split rest c"
  by (induction p) auto

lemma strings_Split_Join:
  "ps \<noteq> [] \<Longrightarrow> \<forall>p \<in> set ps. c \<notin> set p \<Longrightarrow> strings_Split (strings_Join ps [c]) c = ps"
proof (induction ps)
  case Nil
  then show ?case by simp
next
  case (Cons p ps)
  show ?case
  proof (cases "ps = []")
    case True
    with Cons.prems show ?thesis by (simp add: strings_Split_single)
  next
    case False
    with Cons show ?thesis
      by (simp add: strings_Join_Cons strings_Split_append_sep)
  qed
qed

lemma strings_Split_append:
  "c \<notin> set t \<Longrightarrow>
   strings_Split (s @ t) c = butlast (strings_Split s c) @ [last (strings_Split s c) @ t]"
proof (induction s)
  case Nil
  then show ?case by (simp add: strings_Split_single)
next
  case (Cons a s)
  obtain x xs where sp: "strings_Split s c = x # xs"
    using strings_Split_nonempty [of s c] by (cases "strings_Split s c") auto
  show ?case
  proof (cases "a = c")
    case True
    with Cons sp show ?thesis by simp
  next
    case False
    with Cons sp show ?thesis by (cases xs) auto
  qed
qed

section \<open>What \<open>removeMajorVersionFromPath\<close> computes\<close>

lemma removeMajorVersionFromPath_loop_fst:
  "fst (removeMajorVersionFromPath_loop n i ps st) = fst st @ filter (\<lambda>p. \<not> isVNPart p) ps"
  by (induction ps arbitrary: i st) auto

lemma removeMajorVersionFromPath_loop_snd:
  "i + length ps = n \<Longrightarrow>
   snd (removeMajorVersionFromPath_loop n i ps st) =
     (if ps \<noteq> [] \<and> isVNPart (last ps) then strings_HasSuffix (last ps) quote
      else if list_ex isVNPart ps then False else snd st)"
proof (induction ps arbitrary: i st)
  case Nil
  show ?case by simp
next
  case (Cons p ps)
  have step: "Suc i + length ps = n" using Cons.prems by simp
  show ?case
  proof (cases "ps = []")
    case True
    with Cons.prems show ?thesis by auto
  next
    case False
    then have "int i \<noteq> int n - 1" using Cons.prems by (cases ps) auto
    with False show ?thesis
      by (simp add: Cons.IH [OF step])
  qed
qed


lemma removeMajorVersionFromPath_result:
  "fst (removeMajorVersionFromPath p) =
     strings_Join (filter (\<lambda>s. \<not> isVNPart s) (strings_Split p (CHR ''/''))) ''/'' @
     (if isVNPart (last (strings_Split p (CHR ''/''))) \<and>
         strings_HasSuffix (last (strings_Split p (CHR ''/''))) quote
      then quote else [])"
  by (simp add: removeMajorVersionFromPath_def Let_def removeMajorVersionFromPath_loop_fst
      removeMajorVersionFromPath_loop_snd strings_Split_nonempty)

lemma removeMajorVersionFromPath_count:
  "snd (removeMajorVersionFromPath p) =
     int (length p) - int (length (fst (removeMajorVersionFromPath p)))"
  by (simp add: removeMajorVersionFromPath_def Let_def)

lemma removeMajorVersionFromPath_no_version:
  assumes "list_all (\<lambda>s. \<not> isVNPart s) (strings_Split p (CHR ''/''))"
  shows "removeMajorVersionFromPath p = (p, 0)"
proof -
  let ?parts = "strings_Split p (CHR ''/'')"
  have keep: "filter (\<lambda>s. \<not> isVNPart s) ?parts = ?parts"
    using assms by (simp add: list_all_iff)
  have "last ?parts \<in> set ?parts"
    using strings_Split_nonempty by simp
  then have nolast: "\<not> isVNPart (last ?parts)"
    using assms by (simp add: list_all_iff)
  have "fst (removeMajorVersionFromPath p) = p"
    using keep nolast strings_Join_Split [of p "CHR ''/''"]
    by (simp add: removeMajorVersionFromPath_result)
  then show ?thesis
    using removeMajorVersionFromPath_count [of p]
    by (cases "removeMajorVersionFromPath p") simp
qed

lemma filter_none:
  "list_all P ps \<Longrightarrow> filter (\<lambda>s. \<not> P s) ps = []"
  by (induction ps) auto

section \<open>The tests of the source\<close>

text \<open>
  The cases of \<open>Test_isVNPart\<close> and \<open>Test_removeMajorVersionFromPath\<close>, run on the
  definitions above.
\<close>

lemma Test_isVNPart:
  "isVNPart ''abc'' = False"
  "isVNPart (''/v1'' @ quote) = False"
  "isVNPart ''/v44'' = False"
  "isVNPart ''v44'' = True"
  "isVNPart ''v0'' = True"
  "isVNPart (''v0'' @ quote) = True"
  "isVNPart (''v1'' @ quote) = True"
  "isVNPart (''v3333'' @ quote) = True"
  by (simp_all add: scan_eval)

lemma Test_removeMajorVersionFromPath:
  "removeMajorVersionFromPath ''example.com/org/library/v6/pkg''
     = (''example.com/org/library/pkg'', 3)"
  "removeMajorVersionFromPath ''example.com/org/library/v999/pkg''
     = (''example.com/org/library/pkg'', 5)"
  "removeMajorVersionFromPath ''example.com/org/library/pkg''
     = (''example.com/org/library/pkg'', 0)"
  "removeMajorVersionFromPath (quote @ ''example.com/org/library/v3333/subpkg'' @ quote)
     = (quote @ ''example.com/org/library/subpkg'' @ quote, 6)"
  "removeMajorVersionFromPath (quote @ ''example.com/org/library/v33'' @ quote)
     = (quote @ ''example.com/org/library'' @ quote, 4)"
  "removeMajorVersionFromPath (quote @ ''example.com/org/library/pkg'' @ quote)
     = (quote @ ''example.com/org/library/pkg'' @ quote, 0)"
  "removeMajorVersionFromPath (quote @ ''example.com/org/gomobile-v2mod/v2'' @ quote)
     = (quote @ ''example.com/org/gomobile-v2mod'' @ quote, 3)"
  by (simp_all add: removeMajorVersionFromPath_def Let_def scan_eval)

section \<open>What follows a quote or a slash does not change what the scan answers\<close>

text \<open>
  A quote or a slash: an ASCII byte that is no space, no sign, no digit and not \<open>v\<close>.
\<close>

definition stopper :: "char \<Rightarrow> bool" where
  "stopper c = (c = CHR 0x22 \<or> c = CHR ''/'')"

lemma stopper_byte: "stopper c \<Longrightarrow> byte c = 34 \<or> byte c = 47"
  by (auto simp: stopper_def byte_def)

lemma first_SZ: "first b = SZ sz lo hi \<Longrightarrow> (sz = 2 \<or> sz = 3 \<or> sz = 4) \<and> 128 \<le> lo"
  by (auto simp: first_def split: if_splits)

lemma list_upto3:
  obtains "cs = []" | c1 where "cs = [c1]" | c1 c2 where "cs = [c1, c2]"
    | c1 c2 c3 r where "cs = c1 # c2 # c3 # r"
proof (cases cs)
  case Nil
  then show ?thesis using that by simp
next
  case (Cons c1 t1)
  show ?thesis
  proof (cases t1)
    case Nil
    with Cons show ?thesis using that by simp
  next
    case (Cons c2 t2)
    show ?thesis
    proof (cases t2)
      case Nil
      with \<open>cs = c1 # t1\<close> \<open>t1 = c2 # t2\<close> show ?thesis using that by simp
    next
      case (Cons c3 r)
      with \<open>cs = c1 # t1\<close> \<open>t1 = c2 # t2\<close> show ?thesis using that by simp
    qed
  qed
qed

lemma DecodeRuneInString_le: "s \<noteq> [] \<Longrightarrow> snd (DecodeRuneInString s) \<le> length s"
proof (cases s)
  case Nil
  assume "s \<noteq> []"
  with Nil show ?thesis by simp
next
  case (Cons c0 cs)
  show ?thesis
  proof (cases "first (byte c0)")
    case AS
    with Cons show ?thesis by (simp add: DecodeRuneInString_def)
  next
    case XX
    with Cons show ?thesis by (simp add: DecodeRuneInString_def)
  next
    case (SZ sz lo hi)
    then have "sz = 2 \<or> sz = 3 \<or> sz = 4" using first_SZ by blast
    with Cons SZ show ?thesis
      by (cases cs rule: list_upto3) (auto simp: DecodeRuneInString_def Let_def)
  qed
qed

lemma DecodeRuneInString_append_stop:
  assumes "s \<noteq> []" and "stopper c"
  shows "DecodeRuneInString (s @ c # t) = DecodeRuneInString s"
proof -
  obtain c0 cs where s: "s = c0 # cs" using assms by (cases s) auto
  have k: "byte c < 128" using stopper_byte [OF assms(2)] by auto
  show ?thesis
  proof (cases "first (byte c0)")
    case AS
    with s show ?thesis by (simp add: DecodeRuneInString_def)
  next
    case XX
    with s show ?thesis by (simp add: DecodeRuneInString_def)
  next
    case (SZ sz lo hi)
    then have b: "sz = 2 \<or> sz = 3 \<or> sz = 4" "128 \<le> lo" using first_SZ by blast+
    show ?thesis
    proof (cases cs rule: list_upto3)
      case 1
      with s SZ b k show ?thesis
        by (auto simp: DecodeRuneInString_def Let_def)
    next
      case (2 c1)
      with s SZ b k show ?thesis
        by (auto simp: DecodeRuneInString_def Let_def locb_def hicb_def)
    next
      case (3 c1 c2)
      with s SZ b k show ?thesis
        by (auto simp: DecodeRuneInString_def Let_def locb_def hicb_def)
    next
      case (4 c1 c2 c3 r)
      with s SZ b show ?thesis
        by (auto simp: DecodeRuneInString_def Let_def)
    qed
  qed
qed

lemma ReadRune_append_stop:
  assumes "ReadRune s = Some (r, rest)" and "stopper c"
  shows "ReadRune (s @ c # t) = Some (r, rest @ c # t)"
proof -
  from assms obtain c0 cs where s: "s = c0 # cs"
    by (cases s) (auto simp: ReadRune_def)
  have d: "DecodeRuneInString (c0 # cs @ c # t) = DecodeRuneInString (c0 # cs)"
    using DecodeRuneInString_append_stop [of s c t] s assms(2) by simp
  have l: "snd (DecodeRuneInString (c0 # cs)) \<le> length (c0 # cs)"
    using DecodeRuneInString_le [of s] s by simp
  show ?thesis
  proof (cases "byte c0 < RuneSelf")
    case True
    with assms s show ?thesis by (simp add: ReadRune_def)
  next
    case False
    obtain ch sz where dec: "DecodeRuneInString (c0 # cs) = (ch, sz)"
      by (cases "DecodeRuneInString (c0 # cs)")
    with l have "sz \<le> length (c0 # cs)" by simp
    then have "drop sz (c0 # cs @ c # t) = drop sz (c0 # cs) @ c # t"
      by (metis append_Cons drop_append diff_is_0_eq drop0)
    with False s d dec assms show ?thesis
      by (simp add: ReadRune_def)
  qed
qed

lemma ReadRune_stop: "stopper c \<Longrightarrow> ReadRune (c # t) = Some (byte c, t)"
  using stopper_byte [of c] by (auto simp: ReadRune_def RuneSelf_def)

lemma ReadRune_None: "ReadRune s = None \<longleftrightarrow> s = []"
  by (cases s) (auto simp: ReadRune_def split: prod.splits)

lemma ReadRune_Nil: "ReadRune [] = None"
  by (simp add: ReadRune_def)

lemma ReadRune_Cons_ex: "s \<noteq> [] \<Longrightarrow> \<exists>r rest. ReadRune s = Some (r, rest)"
  using ReadRune_None [of s] by (cases "ReadRune s") auto

lemma peek_append_stop:
  assumes "\<not> indexRune ok (byte c)" and "stopper c"
  shows "peek ok (s @ c # t) = peek ok s"
proof (cases "s = []")
  case True
  with assms show ?thesis by (simp add: peek_def ReadRune_stop ReadRune_Nil)
next
  case False
  then obtain r rest where "ReadRune s = Some (r, rest)"
    using ReadRune_Cons_ex by blast
  with assms(2) show ?thesis
    by (simp add: peek_def ReadRune_append_stop)
qed

lemma stopper_no_space: "stopper c \<Longrightarrow> \<not> isSpace (byte c) \<and> byte c \<noteq> 13 \<and> byte c \<noteq> 10"
  using stopper_byte [of c] by (auto simp: isSpace_def space_def)

lemma stopper_no_newline: "stopper c \<Longrightarrow> \<not> indexRune [CHR 0x0A] (byte c)"
  using stopper_byte [of c] by (auto simp: indexRune_def byte_def)

lemma SkipSpace_stop: "stopper c \<Longrightarrow> SkipSpace (c # t) = Inr (c # t)"
  using stopper_no_space [of c]
  by (simp add: SkipSpace.simps [of "c # t"] ReadRune_stop)

lemma SkipSpace_append_stop:
  assumes st: "stopper c"
  shows "SkipSpace (s @ c # t) =
           (case SkipSpace s of Inl e \<Rightarrow> Inl e | Inr u \<Rightarrow> Inr (u @ c # t))"
proof (induction s rule: SkipSpace.induct)
  case (1 inp)
  show ?case
  proof (cases "ReadRune inp")
    case None
    then have "inp = []" by (simp add: ReadRune_None)
    then show ?thesis
      using SkipSpace_stop [OF st, of t]
      by (simp add: SkipSpace.simps [of "[]"] ReadRune_Nil)
  next
    case (Some a)
    obtain r rest where a: "a = (r, rest)" by (cases a)
    have rd: "ReadRune (inp @ c # t) = Some (r, rest @ c # t)"
      using Some a st by (simp add: ReadRune_append_stop)
    have pk: "peek [CHR 0x0A] (rest @ c # t) = peek [CHR 0x0A] rest"
      using stopper_no_newline [OF st] st by (rule peek_append_stop)
    show ?thesis
    proof (cases "r = 13 \<and> peek [CHR 0x0A] rest")
      case True
      then show ?thesis
        using "1.IH"(1) [OF Some a [symmetric]] Some a rd pk
        by (simp add: SkipSpace.simps [of inp] SkipSpace.simps [of "inp @ c # t"])
    next
      case False
      show ?thesis
      proof (cases "r = 10")
        case True
        with False Some a rd pk show ?thesis
          by (auto simp: SkipSpace.simps [of inp] SkipSpace.simps [of "inp @ c # t"])
      next
        case r10: False
        show ?thesis
        proof (cases "isSpace r")
          case True
          then show ?thesis
            using "1.IH"(2) [OF Some a [symmetric] False r10] False r10 Some a rd pk
            by (auto simp: SkipSpace.simps [of inp] SkipSpace.simps [of "inp @ c # t"])
        next
          case nsp: False
          with False r10 Some a rd pk show ?thesis
            by (auto simp: SkipSpace.simps [of inp] SkipSpace.simps [of "inp @ c # t"])
        qed
      qed
    qed
  qed
qed

lemma accept_stop:
  "\<not> indexRune ok (byte c) \<Longrightarrow> stopper c \<Longrightarrow> accept ok (buf, c # t) = (False, buf, c # t)"
  by (simp add: accept_def ReadRune_stop)

lemma accept_append_stop:
  assumes "inp \<noteq> []" and "stopper c"
  shows "accept ok (buf, inp @ c # t) =
           (fst (accept ok (buf, inp)), fst (snd (accept ok (buf, inp))),
            snd (snd (accept ok (buf, inp))) @ c # t)"
proof -
  obtain r rest where rd: "ReadRune inp = Some (r, rest)"
    using assms ReadRune_Cons_ex by blast
  then have "ReadRune (inp @ c # t) = Some (r, rest @ c # t)"
    using assms(2) by (rule ReadRune_append_stop)
  with rd assms show ?thesis
    by (simp add: accept_def)
qed

lemma accept_all_append_stop:
  assumes "\<not> indexRune ok (byte c)" and "stopper c"
  shows "accept_all ok (buf, inp @ c # t) =
           (fst (accept_all ok (buf, inp)), snd (accept_all ok (buf, inp)) @ c # t)"
proof (induction "length inp" arbitrary: buf inp rule: less_induct)
  case less
  show ?case
  proof (cases "inp = []")
    case True
    then have "accept ok (buf, inp) = (False, buf, inp)"
      by (simp add: accept_def ReadRune_Nil)
    with True assms show ?thesis
      by (simp add: accept_all.simps [of ok "(buf, c # t)"] accept_all.simps [of ok "(buf, [])"]
          accept_stop)
  next
    case False
    obtain b buf' rest where a: "accept ok (buf, inp) = (b, buf', rest)"
      by (cases "accept ok (buf, inp)")
    have aq: "accept ok (buf, inp @ c # t) = (b, buf', rest @ c # t)"
      using accept_append_stop [OF False assms(2), of ok buf t] a by simp
    show ?thesis
    proof (cases b)
      case True
      then have "length rest < length inp"
        using accept_shorter [of ok "(buf, inp)" "(buf', rest)"] a by simp
      from less [OF this, of buf'] True a aq show ?thesis
        by (simp add: accept_all.simps [of ok "(buf, inp)"]
            accept_all.simps [of ok "(buf, inp @ c # t)"])
    next
      case False
      with a aq show ?thesis
        by (simp add: accept_all.simps [of ok "(buf, inp)"]
            accept_all.simps [of ok "(buf, inp @ c # t)"])
    qed
  qed
qed

lemma stopper_no_digit: "stopper c \<Longrightarrow> \<not> indexRune decimalDigits (byte c)"
  using stopper_byte [of c] by (auto simp: indexRune_def decimalDigits_def byte_def)

lemma stopper_no_sign: "stopper c \<Longrightarrow> \<not> indexRune sign (byte c)"
  using stopper_byte [of c] by (auto simp: indexRune_def sign_def byte_def)


text \<open>The token that \<open>scanNumber\<close> returns, if it returns one.\<close>

definition token_of :: "scan_error + string \<times> string \<Rightarrow> string option" where
  "token_of x = (case x of Inl e \<Rightarrow> None | Inr (tok, rest) \<Rightarrow> Some tok)"

lemma scanNumber_append_stop:
  assumes st: "stopper c"
  shows "token_of (scanNumber decimalDigits (buf, inp @ c # t)) =
         token_of (scanNumber decimalDigits (buf, inp))"
proof (cases "inp = []")
  case True
  then show ?thesis
    by (simp add: scanNumber_def token_of_def ReadRune_Nil ReadRune_stop [OF st]
        accept_stop [OF stopper_no_digit [OF st] st])
next
  case False
  obtain b buf' rest where a: "accept decimalDigits (buf, inp) = (b, buf', rest)"
    by (cases "accept decimalDigits (buf, inp)")
  have aq: "accept decimalDigits (buf, inp @ c # t) = (b, buf', rest @ c # t)"
    using accept_append_stop [OF False st, of decimalDigits buf t] a by simp
  show ?thesis
    using False a aq accept_all_append_stop [OF stopper_no_digit [OF st] st, of buf' rest t]
    by (cases "accept_all decimalDigits (buf', rest)")
       (simp add: scanNumber_def token_of_def ReadRune_None)
qed

lemma scanInt_token:
  "scanInt inp =
     (case SkipSpace inp of
        Inl e \<Rightarrow> Inl e
      | Inr s1 \<Rightarrow>
          if ReadRune s1 = None then Inl ErrEOF
          else (case token_of (scanNumber decimalDigits (snd (accept sign ([], s1)))) of
                  None \<Rightarrow> (case scanNumber decimalDigits (snd (accept sign ([], s1))) of
                             Inl e \<Rightarrow> Inl e | Inr x \<Rightarrow> Inl ErrSyntax)
                | Some tok \<Rightarrow>
                    (case ParseInt tok of
                       Inl e \<Rightarrow> Inl e
                     | Inr i \<Rightarrow>
                         if - (2 ^ (intBits - 1)) \<le> i \<and> i < 2 ^ (intBits - 1) then Inr i
                         else Inl ErrIntegerOverflow)))"
  by (auto simp: scanInt_def token_of_def split: sum.splits prod.splits)

lemma isl_scanInt:
  "isl (scanInt inp) =
     (case SkipSpace inp of
        Inl e \<Rightarrow> True
      | Inr s1 \<Rightarrow>
          s1 = [] \<or>
          (case token_of (scanNumber decimalDigits (snd (accept sign ([], s1)))) of
             None \<Rightarrow> True
           | Some tok \<Rightarrow>
               isl (case ParseInt tok of
                      Inl e \<Rightarrow> Inl e
                    | Inr i \<Rightarrow>
                        if - (2 ^ (intBits - 1)) \<le> i \<and> i < 2 ^ (intBits - 1)
                        then Inr i else Inl ErrIntegerOverflow)))"
  by (auto simp: scanInt_token ReadRune_None split: sum.splits option.splits)

lemma scanInt_append_stop:
  assumes st: "stopper c"
  shows "isl (scanInt (inp @ c # t)) = isl (scanInt inp)"
proof (cases "SkipSpace inp")
  case (Inl e)
  then show ?thesis by (simp add: isl_scanInt SkipSpace_append_stop [OF st])
next
  case (Inr s1)
  then have sq: "SkipSpace (inp @ c # t) = Inr (s1 @ c # t)"
    by (simp add: SkipSpace_append_stop [OF st])
  show ?thesis
  proof (cases "s1 = []")
    case True
    have "accept sign ([], c # t) = (False, [], c # t)"
      by (rule accept_stop [OF stopper_no_sign [OF st] st])
    moreover have "token_of (scanNumber decimalDigits ([], c # t)) = None"
      using scanNumber_append_stop [OF st, of "[]" "[]" t]
      by (simp add: scanNumber_def token_of_def ReadRune_Nil)
    ultimately show ?thesis
      using Inr sq True by (simp add: isl_scanInt)
  next
    case False
    obtain b buf rest where a: "accept sign ([], s1) = (b, buf, rest)"
      by (cases "accept sign ([], s1)")
    have aq: "accept sign ([], s1 @ c # t) = (b, buf, rest @ c # t)"
      using accept_append_stop [OF False st, of sign "[]" t] a by simp
    show ?thesis
      using Inr sq False a aq scanNumber_append_stop [OF st, of buf rest t]
      by (simp add: isl_scanInt)
  qed
qed

lemma stopper_no_v: "stopper c \<Longrightarrow> byte c \<noteq> byte CHR ''v''"
  using stopper_byte [of c] by (auto simp: byte_def)

lemma doScanf_v_d_append_stop:
  assumes st: "stopper c"
  shows "isl (doScanf_v_d (inp @ c # t)) = isl (doScanf_v_d inp)"
proof (cases "inp = []")
  case True
  then show ?thesis
    using stopper_no_v [OF st]
    by (simp add: doScanf_v_d_def ReadRune_Nil ReadRune_stop [OF st])
next
  case False
  then obtain r rest where rd: "ReadRune inp = Some (r, rest)"
    using ReadRune_Cons_ex by blast
  then have rq: "ReadRune (inp @ c # t) = Some (r, rest @ c # t)"
    using st by (rule ReadRune_append_stop)
  show ?thesis
  proof (cases "SkipSpace rest")
    case (Inl e)
    with rd rq show ?thesis
      by (simp add: doScanf_v_d_def SkipSpace_append_stop [OF st])
  next
    case (Inr s1)
    with rd rq scanInt_append_stop [OF st, of s1 t] show ?thesis
      by (simp add: doScanf_v_d_def SkipSpace_append_stop [OF st])
  qed
qed

lemma limitRunes_Nil: "limitRunes n [] = []"
  by (simp add: limitRunes.simps [of n "[]"] ReadRune_Nil)

lemma limitRunes_append_stop:
  assumes st: "stopper c"
  shows "limitRunes n (s @ c # t) = limitRunes n s \<or>
         (\<exists>t'. limitRunes n (s @ c # t) = limitRunes n s @ c # t')"
proof (induction n s rule: limitRunes.induct)
  case (1 n s)
  show ?case
  proof (cases "n = 0")
    case True
    then show ?thesis
      by (simp add: limitRunes.simps [of 0])
  next
    case n: False
    show ?thesis
    proof (cases "ReadRune s")
      case None
      then have s: "s = []" by (simp add: ReadRune_None)
      have "limitRunes n (c # t) = c # limitRunes (n - 1) t"
        using n by (simp add: limitRunes.simps [of n "c # t"] ReadRune_stop [OF st])
      with s show ?thesis by (simp add: limitRunes_Nil)
    next
      case (Some a)
      obtain r rest where a: "a = (r, rest)" by (cases a)
      have rq: "ReadRune (s @ c # t) = Some (r, rest @ c # t)"
        using Some a st by (simp add: ReadRune_append_stop)
      have "length rest < length s"
        using Some a ReadRune_shorter by simp
      then have tk: "take (length (s @ c # t) - length (rest @ c # t)) (s @ c # t)
                       = take (length s - length rest) s"
        by simp
      show ?thesis
        using "1.IH" [OF n Some a [symmetric]] n Some a rq tk
        by (auto simp: limitRunes.simps [of n s] limitRunes.simps [of n "s @ c # t"])
    qed
  qed
qed

lemma isVNPart_isl: "isVNPart s = (\<not> isl (doScanf_v_d (limitRunes hugeWid s)))"
  by (simp add: isVNPart_def Fscanf_v_d_def split: sum.splits)

lemma isVNPart_append_stop:
  assumes st: "stopper c"
  shows "isVNPart (s @ c # t) = isVNPart s"
proof -
  from limitRunes_append_stop [OF st, of hugeWid s t]
  consider "limitRunes hugeWid (s @ c # t) = limitRunes hugeWid s"
    | t' where "limitRunes hugeWid (s @ c # t) = limitRunes hugeWid s @ c # t'"
    by blast
  then show ?thesis
  proof cases
    case 1
    then show ?thesis by (simp add: isVNPart_isl)
  next
    case (2 t')
    then show ?thesis
      using doScanf_v_d_append_stop [OF st, of "limitRunes hugeWid s" t']
      by (simp add: isVNPart_isl)
  qed
qed

lemma isVNPart_append_quote: "isVNPart (s @ quote) = isVNPart s"
  using isVNPart_append_stop [of "CHR 0x22" s "[]"]
  by (simp add: stopper_def quote_def)

lemma isVNPart_append_slash: "isVNPart (p @ CHR ''/'' # rest) = isVNPart p"
  by (rule isVNPart_append_stop) (simp add: stopper_def)

lemma isVNPart_Nil: "\<not> isVNPart []"
  by (simp add: scan_eval)

lemma kept_nosep:
  "\<forall>p \<in> set (filter (\<lambda>s. \<not> isVNPart s) (strings_Split path (CHR ''/''))). CHR ''/'' \<notin> set p"
proof
  fix p
  assume "p \<in> set (filter (\<lambda>s. \<not> isVNPart s) (strings_Split path (CHR ''/'')))"
  then have "p \<in> set (strings_Split path (CHR ''/''))" by simp
  then show "CHR ''/'' \<notin> set p" by (rule strings_Split_no_sep)
qed

lemma isVNPart_quote: "\<not> isVNPart quote"
  using isVNPart_append_quote [of "[]"] isVNPart_Nil by simp

lemma quote_nosep: "CHR ''/'' \<notin> set quote"
  by (simp add: quote_def)

section \<open>The version-segment predicate\<close>

text \<open>
  C1 (the predicate is true exactly for \<open>v\<close> and one or more digits, with an optional
  trailing quote; \<open>v2mod\<close> is never recognised). \<open>Fscanf\<close> stops reading where the
  format ends: that is why the quote of \<open>v1"\<close> does no harm, and it is also why
  \<open>isVNPart\<close> accepts \<open>v2mod\<close>, which the specification's predicate rejects. And a
  number that does not fit \<open>int64\<close> is an error of \<open>ParseInt\<close>, so \<open>isVNPart\<close>
  rejects \<open>v9223372036854775808\<close>, which the specification's predicate accepts.
\<close>

theorem isVNPart_accepts_v2mod:
  "isVNPart ''v2mod'' \<and> \<not> spec_IsVersionSegment ''v2mod'' \<and>
   \<not> isVNPart ''v9223372036854775808'' \<and> spec_IsVersionSegment ''v9223372036854775808''"
  by (simp add: scan_eval spec_eval)

text \<open>
  C7 as stated (the predicate is false for every input that contains \<open>/\<close>) fails:
  the input \<open>v1/x\<close> contains \<open>/\<close> and is accepted. The function is written for the
  pieces \<open>strings.Split\<close> returns, which hold no \<open>/\<close>, and has no guard for it.
\<close>

theorem isVNPart_accepts_slash:
  "CHR ''/'' \<in> set ''v1/x'' \<and> isVNPart ''v1/x''"
  by (simp add: scan_eval)

text \<open>
  C7, amended: a \<open>/\<close> and what follows it never make an input acceptable. When
  \<open>isVNPart\<close> returns false for a text, it returns false for that text followed by
  \<open>/\<close> and anything more; so it returns false for every input that contains \<open>/\<close>,
  unless it accepts the part before the first \<open>/\<close>, and for every input that begins
  with \<open>/\<close>.
\<close>

theorem isVNPart_slash:
  assumes "\<not> isVNPart p"
  shows "\<not> isVNPart (p @ CHR ''/'' # rest)"
  using assms by (simp add: isVNPart_append_slash)

theorem isVNPart_slash_witness:
  "\<not> isVNPart [] \<and> \<not> isVNPart ''/v44'' \<and> \<not> isVNPart ''abc'' \<and> \<not> isVNPart ''abc/v1''"
proof -
  have h1: "\<not> isVNPart []" by (rule isVNPart_Nil)
  have h2: "\<not> isVNPart ''abc''" by (simp add: scan_eval)
  show ?thesis
    using h1 h2 isVNPart_slash [OF h1, of "''v44''"] isVNPart_slash [OF h2, of "''v1''"]
    by simp
qed

lemma isVNPart_leading_slash: "\<not> isVNPart (CHR ''/'' # s)"
  using isVNPart_append_slash [of "[]" s] isVNPart_Nil by simp

section \<open>Stripping version segments\<close>

text \<open>
  C4 (a path none of whose segments is \<open>v\<close> and digits, optionally quote-terminated, is
  returned unchanged with a count of 0). No segment of \<open>k8s.io/api/apps/v1beta1\<close> is
  such a segment, yet \<open>isVNPart\<close> accepts \<open>v1beta1\<close> and the segment is dropped.
\<close>

theorem removeMajorVersionFromPath_drops_v1beta1:
  "list_all (\<lambda>s. \<not> spec_IsVersionSegment s)
     (strings_Split ''k8s.io/api/apps/v1beta1'' (CHR ''/'')) \<and>
   removeMajorVersionFromPath ''k8s.io/api/apps/v1beta1'' = (''k8s.io/api/apps'', 8)"
  by (simp add: removeMajorVersionFromPath_def Let_def scan_eval spec_eval)

text \<open>
  C5 (every version segment is dropped, all other segments are kept in their order, and
  a quote is appended exactly when the dropped version segment was the last one and ended
  with a quote). In the import literal \<open>"k8s.io/api/apps/v1beta1"\<close> no segment is
  \<open>v\<close> and digits with an optional quote, so all four are to be kept and no quote is to
  be appended; \<open>isVNPart\<close> accepts \<open>v1beta1"\<close>, the segment is dropped, and its quote
  is put back at the end.
\<close>

theorem removeMajorVersionFromPath_drops_quoted_v1beta1:
  "list_all (\<lambda>s. \<not> spec_IsVersionSegment s)
     (strings_Split (quote @ ''k8s.io/api/apps/v1beta1'' @ quote) (CHR ''/'')) \<and>
   removeMajorVersionFromPath (quote @ ''k8s.io/api/apps/v1beta1'' @ quote)
     = (quote @ ''k8s.io/api/apps'' @ quote, 8)"
  by (simp add: removeMajorVersionFromPath_def Let_def scan_eval spec_eval)

text \<open>
  Where \<open>isVNPart\<close> and the specification's predicate agree on every segment of the
  path, the result is what the specification asks for: the segments that are not version
  segments, in their order, joined with \<open>/\<close>, and a quote at the end exactly when the
  last segment is a version segment that ends with a quote.
\<close>

lemma removeMajorVersionFromPath_spec_segments:
  assumes "list_all (\<lambda>s. isVNPart s = spec_IsVersionSegment s) (strings_Split path (CHR ''/''))"
  shows "fst (removeMajorVersionFromPath path) =
     strings_Join (filter (\<lambda>s. \<not> spec_IsVersionSegment s) (strings_Split path (CHR ''/'')))
       ''/'' @
     (if spec_IsVersionSegment (last (strings_Split path (CHR ''/''))) \<and>
         strings_HasSuffix (last (strings_Split path (CHR ''/''))) quote
      then quote else [])"
proof -
  let ?parts = "strings_Split path (CHR ''/'')"
  have agree: "\<forall>s \<in> set ?parts. isVNPart s = spec_IsVersionSegment s"
    using assms by (simp add: list_all_iff)
  then have "filter (\<lambda>s. \<not> isVNPart s) ?parts = filter (\<lambda>s. \<not> spec_IsVersionSegment s) ?parts"
    by (simp cong: filter_cong)
  moreover have "isVNPart (last ?parts) = spec_IsVersionSegment (last ?parts)"
    using agree strings_Split_nonempty [of path "CHR ''/''"] by simp
  ultimately show ?thesis
    by (simp add: removeMajorVersionFromPath_result)
qed

subsection \<open>After one pass no segment is left to drop\<close>

lemma removeMajorVersionFromPath_rest_none:
  assumes "filter (\<lambda>s. \<not> isVNPart s) (strings_Split path (CHR ''/'')) = []"
  shows "list_all (\<lambda>s. \<not> isVNPart s)
     (strings_Split (fst (removeMajorVersionFromPath path)) (CHR ''/''))"
proof -
  have "fst (removeMajorVersionFromPath path) = [] \<or> fst (removeMajorVersionFromPath path) = quote"
    by (simp add: removeMajorVersionFromPath_result assms)
  then show ?thesis
    using isVNPart_quote isVNPart_Nil quote_nosep
    by (auto simp: strings_Split_single)
qed

lemma removeMajorVersionFromPath_rest_some:
  assumes ne: "filter (\<lambda>s. \<not> isVNPart s) (strings_Split path (CHR ''/'')) \<noteq> []"
  shows "list_all (\<lambda>s. \<not> isVNPart s)
     (strings_Split (fst (removeMajorVersionFromPath path)) (CHR ''/''))"
proof -
  define kept where "kept = filter (\<lambda>s. \<not> isVNPart s) (strings_Split path (CHR ''/''))"
  have k: "kept \<noteq> []" using ne by (simp add: kept_def)
  have nosep: "\<forall>p \<in> set kept. CHR ''/'' \<notin> set p"
    unfolding kept_def by (rule kept_nosep)
  have novn: "\<forall>p \<in> set kept. \<not> isVNPart p" by (simp add: kept_def)
  have sj: "strings_Split (strings_Join kept ''/'') (CHR ''/'') = kept"
    using strings_Split_Join [OF k nosep] .
  have sq: "strings_Split (strings_Join kept ''/'' @ quote) (CHR ''/'') =
              butlast kept @ [last kept @ quote]"
    using strings_Split_append [OF quote_nosep, of "strings_Join kept ''/''"]
    by (simp only: sj)
  have "\<not> isVNPart (last kept)"
    using novn last_in_set [OF k] by blast
  then have lq: "\<not> isVNPart (last kept @ quote)"
    by (simp add: isVNPart_append_quote)
  have bl: "\<forall>p \<in> set (butlast kept). \<not> isVNPart p"
    using novn in_set_butlastD by fast
  have a1: "list_all (\<lambda>s. \<not> isVNPart s) (strings_Split (strings_Join kept ''/'') (CHR ''/''))"
    using novn by (simp only: sj list_all_iff)
  have a2: "list_all (\<lambda>s. \<not> isVNPart s)
              (strings_Split (strings_Join kept ''/'' @ quote) (CHR ''/''))"
    using bl lq by (simp add: sq list_all_iff)
  have "fst (removeMajorVersionFromPath path) = strings_Join kept ''/'' \<or>
        fst (removeMajorVersionFromPath path) = strings_Join kept ''/'' @ quote"
    by (simp add: removeMajorVersionFromPath_result kept_def)
  with a1 a2 show ?thesis by metis
qed

text \<open>
  C6: \<open>removeMajorVersionFromPath\<close> is idempotent: applied to its own result it
  returns that result unchanged, with a count of 0.
\<close>

theorem removeMajorVersionFromPath_idempotent:
  "removeMajorVersionFromPath (fst (removeMajorVersionFromPath path)) =
     (fst (removeMajorVersionFromPath path), 0)"
proof (rule removeMajorVersionFromPath_no_version)
  show "list_all (\<lambda>s. \<not> isVNPart s)
          (strings_Split (fst (removeMajorVersionFromPath path)) (CHR ''/''))"
    using removeMajorVersionFromPath_rest_none [of path]
      removeMajorVersionFromPath_rest_some [of path]
    by blast
qed

theorem removeMajorVersionFromPath_idempotent_witness:
  "fst (removeMajorVersionFromPath (''a/v1'' @ quote @ ''/b/v22'' @ quote)) = ''a/b'' @ quote \<and>
   removeMajorVersionFromPath (''a/b'' @ quote) = (''a/b'' @ quote, 0)"
proof -
  have r: "fst (removeMajorVersionFromPath (''a/v1'' @ quote @ ''/b/v22'' @ quote))
             = ''a/b'' @ quote"
    by (simp add: removeMajorVersionFromPath_def Let_def scan_eval)
  show ?thesis
    using r removeMajorVersionFromPath_idempotent [of "''a/v1'' @ quote @ ''/b/v22'' @ quote"]
    by (simp only: r)
qed

text \<open>
  C8: the length of the result plus the returned count is the length of the input.
\<close>

theorem removeMajorVersionFromPath_length:
  "int (length (fst (removeMajorVersionFromPath path))) + snd (removeMajorVersionFromPath path)
     = int (length path)"
  by (simp add: removeMajorVersionFromPath_def Let_def)

theorem removeMajorVersionFromPath_length_witness:
  "int (length (fst (removeMajorVersionFromPath ''example.com/org/library/v6/pkg''))) +
     snd (removeMajorVersionFromPath ''example.com/org/library/v6/pkg'') = 30"
  using removeMajorVersionFromPath_length [of "''example.com/org/library/v6/pkg''"]
  by simp

text \<open>
  C10 as stated (all segments version segments: the result is empty, or a lone quote,
  and the count is the full length of the input) fails where the lone quote is returned:
  the count of \<open>v2"\<close> is 2, and its length is 3.
\<close>

theorem removeMajorVersionFromPath_lone_quote_count:
  "list_all isVNPart (strings_Split (''v2'' @ quote) (CHR ''/'')) \<and>
   removeMajorVersionFromPath (''v2'' @ quote) = (quote, 2) \<and>
   (2 :: int) \<noteq> int (length (''v2'' @ quote))"
  by (simp add: removeMajorVersionFromPath_def Let_def scan_eval)

text \<open>
  C10, amended: when \<open>isVNPart\<close> recognises every segment of the path, the result is
  the empty string with a count of the full length of the input, or, when the last
  segment ends with a quote, a lone quote with a count of the length less one.
\<close>

theorem removeMajorVersionFromPath_all_versions:
  assumes "list_all isVNPart (strings_Split path (CHR ''/''))"
  shows "removeMajorVersionFromPath path =
           (if strings_HasSuffix (last (strings_Split path (CHR ''/''))) quote
            then (quote, int (length path) - 1) else ([], int (length path)))"
proof -
  let ?parts = "strings_Split path (CHR ''/'')"
  have none: "filter (\<lambda>s. \<not> isVNPart s) ?parts = []"
    using assms by (rule filter_none)
  have "last ?parts \<in> set ?parts"
    using strings_Split_nonempty by simp
  then have vn: "isVNPart (last ?parts)"
    using assms by (simp add: list_all_iff)
  have "fst (removeMajorVersionFromPath path) =
          (if strings_HasSuffix (last ?parts) quote then quote else [])"
    using none vn by (simp add: removeMajorVersionFromPath_result)
  then show ?thesis
    using removeMajorVersionFromPath_count [of path]
    by (cases "removeMajorVersionFromPath path") (simp add: quote_def)
qed

theorem removeMajorVersionFromPath_all_versions_witness:
  "list_all isVNPart (strings_Split ''v2/v10'' (CHR ''/'')) \<and>
   removeMajorVersionFromPath ''v2/v10'' = ([], 6)"
proof -
  have h: "list_all isVNPart (strings_Split ''v2/v10'' (CHR ''/''))"
    by (simp add: scan_eval)
  show ?thesis
    using h removeMajorVersionFromPath_all_versions [OF h] by (simp add: scan_eval)
qed

section \<open>Properties of the importer\<close>

lemmas import_eval =
  Import_0 Import_Suc Let_def initStdImporter_def log_def loadPackageSources_def
  rewriteImports_def removeMajorVersionFromPath_def example_world_def
  failing_check_world_def new_importer_def unquote_def example_trace_def

subsection \<open>The handle of the baseline importer\<close>

lemma same_importer_refl: "stdImporter imp = Some h \<Longrightarrow> same_importer h imp imp"
  by (simp add: same_importer_def)

lemma same_importer_trans:
  assumes "same_importer h a b" and "same_importer h b c"
  shows "same_importer h a c"
proof -
  obtain e1 where e1: "trace b = trace a @ e1" "list_all (reuses h) e1"
    using assms(1) unfolding same_importer_def
    by (metis append_take_drop_id)
  obtain e2 where e2: "trace c = trace b @ e2" "list_all (reuses h) e2"
    using assms(2) unfolding same_importer_def
    by (metis append_take_drop_id)
  show ?thesis
    using assms e1 e2 by (simp add: same_importer_def)
qed

lemma same_importer_log:
  "stdImporter imp = Some h \<Longrightarrow> reuses h e \<Longrightarrow> same_importer h imp (log e imp)"
  by (simp add: same_importer_def log_def)

lemma same_importer_loadFileContents:
  "stdImporter imp = Some h \<Longrightarrow> loadFileContents W fpath m imp = (r, imp')
     \<Longrightarrow> same_importer h imp imp'"
proof (induction fpath arbitrary: m imp)
  case Nil
  then show ?case by (simp add: same_importer_refl)
next
  case (Cons fp fpath)
  have l: "same_importer h imp (log (ReadFile fp) imp)"
    using Cons.prems(1) by (simp add: same_importer_log reuses_def)
  have s: "stdImporter (log (ReadFile fp) imp) = Some h"
    using Cons.prems(1) by (simp add: log_def)
  show ?case
  proof (cases "ioutil_ReadFile W fp")
    case (Inl err)
    with Cons.prems l show ?thesis by auto
  next
    case (Inr d)
    with Cons.prems have "loadFileContents W fpath (map_put fp d m) (log (ReadFile fp) imp) = (r, imp')"
      by simp
    from Cons.IH [OF s this] l show ?thesis by (rule same_importer_trans [rotated])
  qed
qed

lemma same_importer_loadPackageSources:
  assumes "stdImporter imp = Some h" and "loadPackageSources W p d imp = (r, imp')"
  shows "same_importer h imp imp'"
proof -
  let ?i = "log (ContextImport p d) imp"
  have l: "same_importer h imp ?i"
    using assms(1) by (simp add: same_importer_log reuses_def)
  have s: "stdImporter ?i = Some h"
    using assms(1) by (simp add: log_def)
  show ?thesis
  proof (cases "build_Import W p d")
    case (Inl err)
    with assms l show ?thesis by (auto simp: loadPackageSources_def)
  next
    case (Inr GoFiles)
    with assms have "loadFileContents W (map (\<lambda>f. filepath_Join W [d, f]) GoFiles) [] ?i = (r, imp')"
      by (simp add: loadPackageSources_def)
    from same_importer_loadFileContents [OF s this] l show ?thesis
      by (rule same_importer_trans [rotated])
  qed
qed

lemma same_importer_parseFiles:
  "stdImporter imp = Some h \<Longrightarrow> parseFiles W srcs fs imp = (r, imp')
     \<Longrightarrow> same_importer h imp imp'"
proof (induction srcs arbitrary: fs imp)
  case Nil
  then show ?case by (simp add: same_importer_refl)
next
  case (Cons a srcs)
  obtain fpath src where a: "a = (fpath, src)" by (cases a)
  have l: "same_importer h imp (log (ParseFile fpath) imp)"
    using Cons.prems(1) by (simp add: same_importer_log reuses_def)
  have s: "stdImporter (log (ParseFile fpath) imp) = Some h"
    using Cons.prems(1) by (simp add: log_def)
  show ?case
  proof (cases "parser_ParseFile W fpath src")
    case (Inl err)
    with Cons.prems a l show ?thesis by auto
  next
    case (Inr astf)
    with Cons.prems a
    have "parseFiles W srcs (fs @ [rewriteImports astf]) (log (ParseFile fpath) imp) = (r, imp')"
      by simp
    from Cons.IH [OF s this] l show ?thesis by (rule same_importer_trans [rotated])
  qed
qed

lemma same_importer_run_checker:
  assumes cb: "\<And>p i r i'. stdImporter i = Some h \<Longrightarrow> importer p i = Some (r, i')
                 \<Longrightarrow> same_importer h i i'"
  shows "stdImporter imp = Some h \<Longrightarrow> run_checker importer chk imp = Some (r, imp')
           \<Longrightarrow> same_importer h imp imp'"
proof (induction chk arbitrary: imp)
  case (Done x)
  then show ?case by (simp add: same_importer_refl)
next
  case (ImportCall p k)
  from ImportCall.prems(2) obtain r1 i1 where
    c: "importer p imp = Some (r1, i1)" and rest: "run_checker importer (k r1) i1 = Some (r, imp')"
    by (auto split: option.splits)
  have s1: "same_importer h imp i1" using cb [OF ImportCall.prems(1) c] .
  then have "stdImporter i1 = Some h" by (simp add: same_importer_def)
  from ImportCall.IH [OF _ this rest] s1 show ?case
    by (rule same_importer_trans [rotated]) simp
qed


lemma initStdImporter_handle:
  "stdImporter (snd (initStdImporter imp)) = Some (fst (initStdImporter imp))"
  by (simp add: initStdImporter_def log_def split: option.splits)

lemma initStdImporter_Some:
  "stdImporter imp = Some h \<Longrightarrow> initStdImporter imp = (h, imp)"
  by (simp add: initStdImporter_def)

lemma initStdImporter_created:
  "created (snd (initStdImporter imp)) =
     created imp + (if stdImporter imp = None then 1 else 0)"
  by (simp add: initStdImporter_def log_def split: option.splits)

lemma initStdImporter_trace:
  "filter fallback_event (trace (snd (initStdImporter imp))) = filter fallback_event (trace imp)"
  by (simp add: initStdImporter_def log_def fallback_event_def split: option.splits)

lemma same_importer_Import:
  "stdImporter imp = Some h \<Longrightarrow> Import depth W path imp = Some (r, imp')
     \<Longrightarrow> same_importer h imp imp'"
proof (induction depth arbitrary: path imp r imp')
  case 0
  then show ?case by (simp add: Import_0)
next
  case (Suc depth)
  let ?i2 = "log (StdImport h path) imp"
  have l2: "same_importer h imp ?i2"
    using Suc.prems(1) by (simp add: same_importer_log reuses_def)
  have s2: "stdImporter ?i2 = Some h"
    using Suc.prems(1) by (simp add: log_def)
  obtain pkg err where base: "importer_Import W h path = (pkg, err)"
    by (cases "importer_Import W h path")
  show ?case
  proof (cases err)
    case None
    with Suc.prems base l2 show ?thesis
      by (simp add: Import_Suc initStdImporter_Some)
  next
    case (Some e)
    obtain lr i3 where ld:
      "loadPackageSources W path (filepath_Join W [GOPATH W, ''src'', path]) ?i2 = (lr, i3)"
      by (cases "loadPackageSources W path (filepath_Join W [GOPATH W, ''src'', path]) ?i2")
    have l3: "same_importer h imp i3"
      using same_importer_trans [OF l2 same_importer_loadPackageSources [OF s2 ld]] .
    then have s3: "stdImporter i3 = Some h" by (simp add: same_importer_def)
    show ?thesis
    proof (cases lr)
      case (Inl lerr)
      with Suc.prems base Some ld l3 show ?thesis
        by (simp add: Import_Suc initStdImporter_Some)
    next
      case (Inr fileSrcs)
      obtain pr i4 where ps: "parseFiles W (range_order W fileSrcs) [] i3 = (pr, i4)"
        by (cases "parseFiles W (range_order W fileSrcs) [] i3")
      have l4: "same_importer h imp i4"
        using same_importer_trans [OF l3 same_importer_parseFiles [OF s3 ps]] .
      then have s4: "stdImporter i4 = Some h" by (simp add: same_importer_def)
      show ?thesis
      proof (cases pr)
        case (Inl perr)
        with Suc.prems base Some ld Inr ps l4 show ?thesis
          by (simp add: Import_Suc initStdImporter_Some)
      next
        case (Inr astFiles)
        let ?i5 = "log (Check path astFiles) i4"
        have l5: "same_importer h imp ?i5"
          using same_importer_trans [OF l4 same_importer_log [OF s4]]
          by (simp add: reuses_def)
        have s5: "stdImporter ?i5 = Some h" using s4 by (simp add: log_def)
        have run: "run_checker (Import depth W) (types_Check W path astFiles) ?i5 = Some (r, imp')"
          using Suc.prems base Some ld \<open>lr = Inr fileSrcs\<close> ps Inr
          by (simp add: Import_Suc initStdImporter_Some)
        have "same_importer h ?i5 imp'"
          using same_importer_run_checker [of h "Import depth W", OF Suc.IH s5 run] .
        with l5 show ?thesis by (rule same_importer_trans)
      qed
    qed
  qed
qed

lemma Import_initStdImporter:
  "Import depth W path (snd (initStdImporter imp)) = Import depth W path imp"
proof (cases depth)
  case 0
  then show ?thesis by (simp add: Import_0)
next
  case (Suc d)
  have "initStdImporter (snd (initStdImporter imp)) = initStdImporter imp"
    using initStdImporter_Some [OF initStdImporter_handle [of imp]] by simp
  with Suc show ?thesis by (simp add: Import_Suc)
qed

lemma Import_handle:
  assumes "Import depth W path imp = Some (r, imp')"
  shows "same_importer (fst (initStdImporter imp)) (snd (initStdImporter imp)) imp'"
proof -
  have "Import depth W path (snd (initStdImporter imp)) = Some (r, imp')"
    using assms by (simp add: Import_initStdImporter)
  then show ?thesis
    by (rule same_importer_Import [OF initStdImporter_handle])
qed

text \<open>
  C9: \<open>stdImporter\<close> is created by a call of \<open>Import\<close> only when it is \<open>nil\<close>, and
  then once: at the end of a call that returns, the field holds the handle the call
  started with, or the one it created on entry, the number of importers created has
  grown by one if the field was \<open>nil\<close> and not at all otherwise, and everything after
  the first statement, the nested calls included, created no importer and called the
  baseline importer through that handle.
\<close>

theorem stdImporter_created_once:
  assumes "Import depth W path imp = Some (r, imp')"
  shows "stdImporter imp' = Some (fst (initStdImporter imp)) \<and>
         created imp' = created imp + (if stdImporter imp = None then 1 else 0) \<and>
         same_importer (fst (initStdImporter imp)) (snd (initStdImporter imp)) imp'"
  using Import_handle [OF assms] initStdImporter_created [of imp]
  by (simp add: same_importer_def)

theorem stdImporter_created_once_witness:
  "Import (Suc (Suc 0)) example_world ''example.com/app'' new_importer =
     Some ((Some (Package ''example.com/app'' True), None),
           \<lparr> stdImporter = Some 0, created = 1, trace = example_trace \<rparr>) \<and>
   Import (Suc 0) example_world ''example.com/lib''
       \<lparr> stdImporter = Some 0, created = 1, trace = example_trace \<rparr> =
     Some ((Some (Package ''example.com/lib'' True), None),
           \<lparr> stdImporter = Some 0, created = 1,
             trace = example_trace @ [StdImport 0 ''example.com/lib''] \<rparr>) \<and>
   same_importer 0 \<lparr> stdImporter = Some 0, created = 1, trace = example_trace \<rparr>
     \<lparr> stdImporter = Some 0, created = 1,
       trace = example_trace @ [StdImport 0 ''example.com/lib''] \<rparr>"
proof -
  have first:
    "Import (Suc (Suc 0)) example_world ''example.com/app'' new_importer =
       Some ((Some (Package ''example.com/app'' True), None),
             \<lparr> stdImporter = Some 0, created = 1, trace = example_trace \<rparr>)"
    by (simp add: import_eval scan_eval)
  have second:
    "Import (Suc 0) example_world ''example.com/lib''
         \<lparr> stdImporter = Some 0, created = 1, trace = example_trace \<rparr> =
       Some ((Some (Package ''example.com/lib'' True), None),
             \<lparr> stdImporter = Some 0, created = 1,
               trace = example_trace @ [StdImport 0 ''example.com/lib''] \<rparr>)"
    by (simp add: import_eval)
  show ?thesis
    using first second stdImporter_created_once [OF first] stdImporter_created_once [OF second]
    by (simp add: initStdImporter_def)
qed

subsection \<open>The baseline importer succeeds\<close>

text \<open>
  C3: when the baseline importer returns no error for the path, \<open>Import\<close> returns the
  baseline's result at any depth allowed, and the only calls it has made are the creation
  of the baseline importer, if it was \<open>nil\<close>, and the baseline \<open>Import\<close>: no loading,
  reading, parsing or checking call is added to the trace.
\<close>

theorem Import_baseline_success:
  assumes "snd (importer_Import W (fst (initStdImporter imp)) path) = None"
  shows "Import (Suc depth) W path imp =
           Some (importer_Import W (fst (initStdImporter imp)) path,
                 log (StdImport (fst (initStdImporter imp)) path) (snd (initStdImporter imp))) \<and>
         filter fallback_event
           (trace (log (StdImport (fst (initStdImporter imp)) path) (snd (initStdImporter imp))))
           = filter fallback_event (trace imp)"
proof -
  obtain h i1 where init: "initStdImporter imp = (h, i1)" by (cases "initStdImporter imp")
  obtain pkg err where base: "importer_Import W h path = (pkg, err)"
    by (cases "importer_Import W h path")
  have "err = None" using assms init base by simp
  moreover have "filter fallback_event (trace i1) = filter fallback_event (trace imp)"
    using initStdImporter_trace [of imp] init by simp
  ultimately show ?thesis
    using init base by (simp add: Import_Suc log_def fallback_event_def)
qed

theorem Import_baseline_success_witness:
  "snd (importer_Import example_world (fst (initStdImporter new_importer)) ''example.com/lib'')
     = None \<and>
   Import (Suc 0) example_world ''example.com/lib'' new_importer =
     Some ((Some (Package ''example.com/lib'' True), None),
           \<lparr> stdImporter = Some 0, created = 1,
             trace = [NewStdImporter 0, StdImport 0 ''example.com/lib''] \<rparr>)"
proof -
  have h: "snd (importer_Import example_world (fst (initStdImporter new_importer))
                  ''example.com/lib'') = None"
    by (simp add: import_eval)
  show ?thesis
    using h Import_baseline_success [OF h, of 0] by (simp add: import_eval)
qed

subsection \<open>The pair \<open>Import\<close> returns\<close>

lemma run_checker_leaves:
  "run_checker importer chk imp = Some (r, imp') \<Longrightarrow> r \<in> leaves chk"
proof (induction chk arbitrary: imp)
  case (Done x)
  then show ?case by simp
next
  case (ImportCall p k)
  from ImportCall.prems obtain r1 i1 where
    "importer p imp = Some (r1, i1)" and rest: "run_checker importer (k r1) i1 = Some (r, imp')"
    by (auto split: option.splits)
  have "r \<in> leaves (k r1)"
    using ImportCall.IH [OF _ rest] by simp
  then show ?case by (cases r1) auto
qed

text \<open>
  C2 as stated (the pair returned is never a package together with an error) fails on
  the check step, whose pair \<open>Import\<close> returns as it is: with a checker that fails as
  \<open>types.Config.Check\<close> does, \<open>Import\<close> returns the incomplete package and the error.
\<close>

theorem Import_returns_package_and_error:
  "map_option fst (Import (Suc 0) failing_check_world ''example.com/app'' new_importer) =
     Some (Some (Package ''example.com/app'' False), Some (GoError ''undeclared name''))"
  by (simp add: import_eval scan_eval)

text \<open>
  C2, amended. Let \<open>h\<close> be the handle of the baseline importer after the first
  statement of \<open>Import\<close>. At any depth allowed: when the baseline importer returns no
  error, \<open>Import\<close> returns the baseline's package and a \<open>nil\<close> error; when it fails
  and loading fails, \<open>Import\<close> returns a \<open>nil\<close> package and the error of loading;
  when loading succeeds and a file does not parse, \<open>Import\<close> returns a \<open>nil\<close>
  package and the error of parsing; and when all files parse, \<open>Import\<close> returns what
  the run of the checker on the parsed files, their imports rewritten, returns, pair and
  state unchanged (and does not return when that run does not), so the pair is one the
  checker on these files ends with.
\<close>

theorem Import_returned_pair:
  assumes "initStdImporter imp = (h, imp1)"
  shows
    "(\<forall>pkg. importer_Import W h path = (pkg, None) \<longrightarrow>
        Import (Suc depth) W path imp = Some ((pkg, None), log (StdImport h path) imp1)) \<and>
     (\<forall>pkg e err imp3.
        importer_Import W h path = (pkg, Some e) \<longrightarrow>
        loadPackageSources W path (filepath_Join W [GOPATH W, ''src'', path])
          (log (StdImport h path) imp1) = (Inl err, imp3) \<longrightarrow>
        Import (Suc depth) W path imp = Some ((None, Some err), imp3)) \<and>
     (\<forall>pkg e fileSrcs imp3 err imp4.
        importer_Import W h path = (pkg, Some e) \<longrightarrow>
        loadPackageSources W path (filepath_Join W [GOPATH W, ''src'', path])
          (log (StdImport h path) imp1) = (Inr fileSrcs, imp3) \<longrightarrow>
        parseFiles W (range_order W fileSrcs) [] imp3 = (Inl err, imp4) \<longrightarrow>
        Import (Suc depth) W path imp = Some ((None, Some err), imp4)) \<and>
     (\<forall>pkg e fileSrcs imp3 astFiles imp4.
        importer_Import W h path = (pkg, Some e) \<longrightarrow>
        loadPackageSources W path (filepath_Join W [GOPATH W, ''src'', path])
          (log (StdImport h path) imp1) = (Inr fileSrcs, imp3) \<longrightarrow>
        parseFiles W (range_order W fileSrcs) [] imp3 = (Inr astFiles, imp4) \<longrightarrow>
        Import (Suc depth) W path imp =
          run_checker (Import depth W) (types_Check W path astFiles)
            (log (Check path astFiles) imp4) \<and>
        (\<forall>r imp'. Import (Suc depth) W path imp = Some (r, imp') \<longrightarrow>
           r \<in> leaves (types_Check W path astFiles)))"
proof (intro conjI allI impI)
  fix pkg
  assume "importer_Import W h path = (pkg, None)"
  with assms
  show "Import (Suc depth) W path imp = Some ((pkg, None), log (StdImport h path) imp1)"
    by (simp add: Import_Suc)
next
  fix pkg e err imp3
  assume "importer_Import W h path = (pkg, Some e)"
    and "loadPackageSources W path (filepath_Join W [GOPATH W, ''src'', path])
           (log (StdImport h path) imp1) = (Inl err, imp3)"
  with assms show "Import (Suc depth) W path imp = Some ((None, Some err), imp3)"
    by (simp add: Import_Suc)
next
  fix pkg e fileSrcs imp3 err imp4
  assume "importer_Import W h path = (pkg, Some e)"
    and "loadPackageSources W path (filepath_Join W [GOPATH W, ''src'', path])
           (log (StdImport h path) imp1) = (Inr fileSrcs, imp3)"
    and "parseFiles W (range_order W fileSrcs) [] imp3 = (Inl err, imp4)"
  with assms show "Import (Suc depth) W path imp = Some ((None, Some err), imp4)"
    by (simp add: Import_Suc)
next
  fix pkg e fileSrcs imp3 astFiles imp4
  assume "importer_Import W h path = (pkg, Some e)"
    and "loadPackageSources W path (filepath_Join W [GOPATH W, ''src'', path])
           (log (StdImport h path) imp1) = (Inr fileSrcs, imp3)"
    and "parseFiles W (range_order W fileSrcs) [] imp3 = (Inr astFiles, imp4)"
  with assms show run: "Import (Suc depth) W path imp =
      run_checker (Import depth W) (types_Check W path astFiles)
        (log (Check path astFiles) imp4)"
    by (simp add: Import_Suc)
  fix r imp'
  assume "Import (Suc depth) W path imp = Some (r, imp')"
  with run have "run_checker (Import depth W) (types_Check W path astFiles)
                   (log (Check path astFiles) imp4) = Some (r, imp')"
    by simp
  then show "r \<in> leaves (types_Check W path astFiles)"
    by (rule run_checker_leaves)
qed

theorem Import_returned_pair_witness:
  "initStdImporter new_importer =
     (0, \<lparr> stdImporter = Some 0, created = 1, trace = [NewStdImporter 0] \<rparr>) \<and>
   Import (Suc 0) example_world ''example.com/lib'' new_importer =
     Some ((Some (Package ''example.com/lib'' True), None),
           \<lparr> stdImporter = Some 0, created = 1,
             trace = [NewStdImporter 0, StdImport 0 ''example.com/lib''] \<rparr>) \<and>
   Import (Suc 0) example_world ''example.com/other'' new_importer =
     Some ((None, Some (GoError ''cannot find package'')),
           \<lparr> stdImporter = Some 0, created = 1,
             trace = [NewStdImporter 0, StdImport 0 ''example.com/other'',
                      ContextImport ''example.com/other'' ''/go/src/example.com/other''] \<rparr>) \<and>
   Import (Suc 0) failing_check_world ''example.com/app'' new_importer =
     Some ((Some (Package ''example.com/app'' False), Some (GoError ''undeclared name'')),
           \<lparr> stdImporter = Some 0, created = 1,
             trace = [NewStdImporter 0, StdImport 0 ''example.com/app'',
                      ContextImport ''example.com/app'' ''/go/src/example.com/app'',
                      ReadFile ''/go/src/example.com/app/app.go'',
                      ParseFile ''/go/src/example.com/app/app.go'',
                      Check ''example.com/app''
                        [\<lparr> Imports = [quote @ ''example.com/lib'' @ quote],
                           Decls = ''package app'' \<rparr>]] \<rparr>)"
proof -
  let ?imp1 = "\<lparr> stdImporter = Some 0, created = 1, trace = [NewStdImporter 0] \<rparr>"
  let ?imp3 = "\<lparr> stdImporter = Some 0, created = 1,
                 trace = [NewStdImporter 0, StdImport 0 ''example.com/other'',
                          ContextImport ''example.com/other'' ''/go/src/example.com/other''] \<rparr>"
  let ?app3 = "\<lparr> stdImporter = Some 0, created = 1,
                 trace = [NewStdImporter 0, StdImport 0 ''example.com/app'',
                          ContextImport ''example.com/app'' ''/go/src/example.com/app'',
                          ReadFile ''/go/src/example.com/app/app.go''] \<rparr>"
  let ?app4 = "\<lparr> stdImporter = Some 0, created = 1,
                 trace = [NewStdImporter 0, StdImport 0 ''example.com/app'',
                          ContextImport ''example.com/app'' ''/go/src/example.com/app'',
                          ReadFile ''/go/src/example.com/app/app.go'',
                          ParseFile ''/go/src/example.com/app/app.go''] \<rparr>"
  let ?files = "[\<lparr> Imports = [quote @ ''example.com/lib'' @ quote], Decls = ''package app'' \<rparr>]"
  have init: "initStdImporter new_importer = (0, ?imp1)"
    by (simp add: import_eval)
  have base_lib: "importer_Import example_world 0 ''example.com/lib''
                    = (Some (Package ''example.com/lib'' True), None)"
    by (simp add: example_world_def)
  from Import_returned_pair [OF init, of example_world "''example.com/lib''" 0] base_lib
  have lib: "Import (Suc 0) example_world ''example.com/lib'' new_importer =
               Some ((Some (Package ''example.com/lib'' True), None),
                     log (StdImport 0 ''example.com/lib'') ?imp1)"
    by blast
  have base: "importer_Import example_world 0 ''example.com/other''
                = (None, Some (GoError ''cannot find package''))"
    by (simp add: example_world_def)
  have load: "loadPackageSources example_world ''example.com/other''
                (filepath_Join example_world [GOPATH example_world, ''src'', ''example.com/other''])
                (log (StdImport 0 ''example.com/other'') ?imp1)
                = (Inl (GoError ''cannot find package''), ?imp3)"
    by (simp add: import_eval)
  from Import_returned_pair [OF init, of example_world "''example.com/other''" 0] base load
  have other: "Import (Suc 0) example_world ''example.com/other'' new_importer =
          Some ((None, Some (GoError ''cannot find package'')), ?imp3)"
    by blast
  have base_app: "importer_Import failing_check_world 0 ''example.com/app''
                = (None, Some (GoError ''cannot find package''))"
    by (simp add: import_eval)
  have load_app: "loadPackageSources failing_check_world ''example.com/app''
                (filepath_Join failing_check_world
                   [GOPATH failing_check_world, ''src'', ''example.com/app''])
                (log (StdImport 0 ''example.com/app'') ?imp1)
                = (Inr [(''/go/src/example.com/app/app.go'', ''package app'')], ?app3)"
    by (simp add: import_eval)
  have parse_app: "parseFiles failing_check_world
                (range_order failing_check_world
                   [(''/go/src/example.com/app/app.go'', ''package app'')]) [] ?app3
                = (Inr ?files, ?app4)"
    by (simp add: import_eval scan_eval)
  from Import_returned_pair [OF init, of failing_check_world "''example.com/app''" 0]
    base_app load_app parse_app
  have "Import (Suc 0) failing_check_world ''example.com/app'' new_importer =
          run_checker (Import 0 failing_check_world)
            (types_Check failing_check_world ''example.com/app'' ?files)
            (log (Check ''example.com/app'' ?files) ?app4)"
    by blast
  then have app: "Import (Suc 0) failing_check_world ''example.com/app'' new_importer =
          Some ((Some (Package ''example.com/app'' False), Some (GoError ''undeclared name'')),
                log (Check ''example.com/app'' ?files) ?app4)"
    by (simp add: failing_check_world_def)
  show ?thesis
    using init lib other app by (simp add: log_def)
qed

text \<open>
  It follows that the pair of a call that returns is the baseline's package with a
  \<open>nil\<close> error, a \<open>nil\<close> package with an error, or a pair the checker ends with.
\<close>

lemma Import_returned_cases:
  assumes "Import depth W path imp = Some ((pkg, err), imp')"
  shows "(err = None \<and> importer_Import W (fst (initStdImporter imp)) path = (pkg, None)) \<or>
         (pkg = None \<and> err \<noteq> None) \<or>
         (\<exists>astFiles. (pkg, err) \<in> leaves (types_Check W path astFiles))"
proof (cases depth)
  case 0
  with assms show ?thesis by (simp add: Import_0)
next
  case (Suc d)
  obtain h i1 where init: "initStdImporter imp = (h, i1)" by (cases "initStdImporter imp")
  obtain bp be where base: "importer_Import W h path = (bp, be)"
    by (cases "importer_Import W h path")
  show ?thesis
  proof (cases be)
    case None
    with assms Suc init base show ?thesis by (simp add: Import_Suc Let_def)
  next
    case (Some e)
    obtain lr i3 where ld:
      "loadPackageSources W path (filepath_Join W [GOPATH W, ''src'', path])
         (log (StdImport h path) i1) = (lr, i3)"
      by (cases "loadPackageSources W path (filepath_Join W [GOPATH W, ''src'', path])
                   (log (StdImport h path) i1)")
    show ?thesis
    proof (cases lr)
      case (Inl lerr)
      with assms Suc init base Some ld show ?thesis by (auto simp: Import_Suc Let_def)
    next
      case (Inr fileSrcs)
      obtain pr i4 where ps: "parseFiles W (range_order W fileSrcs) [] i3 = (pr, i4)"
        by (cases "parseFiles W (range_order W fileSrcs) [] i3")
      show ?thesis
      proof (cases pr)
        case (Inl perr)
        with assms Suc init base Some ld \<open>lr = Inr fileSrcs\<close> ps show ?thesis
          by (auto simp: Import_Suc Let_def)
      next
        case (Inr astFiles)
        have "run_checker (Import d W) (types_Check W path astFiles)
                (log (Check path astFiles) i4) = Some ((pkg, err), imp')"
          using assms Suc init base Some ld \<open>lr = Inr fileSrcs\<close> ps Inr
          by (simp add: Import_Suc Let_def)
        then have "(pkg, err) \<in> leaves (types_Check W path astFiles)"
          by (rule run_checker_leaves)
        then show ?thesis by blast
      qed
    qed
  qed
qed

end
